theory Spec2Isabelle
  imports Main
begin

section \<open>The play command: per-guild music queue and voice playback\<close>

text \<open>
  The module keeps one process-wide \<open>Map\<close> from guild id to a queue object
  \<open>{songs, player, connection}\<close>. The command handler \<open>execute\<close> appends a song and, for a
  new queue, joins the voice channel and registers two handlers on the queue's player; the
  handlers are closures over the queue object and over the interaction of the call that
  registered them. Objects therefore have identity here: queue objects, players and voice
  connections live in stores indexed by an address, and the map holds addresses.
\<close>

subsection \<open>Data\<close>

type_synonym snowflake = string
type_synonym qref = nat
type_synonym player_id = nat
type_synonym conn_id = nat

record song =
  title :: string
  url :: string

datatype channel_type = GuildText | GuildVoice | GuildCategory

text \<open>
  The channel option of the command, with the two permission bits the handler asks for
  (\<open>permissionsFor(bot).has([Connect, Speak])\<close>).
\<close>

record channel =
  ch_id :: snowflake
  ch_type :: channel_type
  can_connect :: bool
  can_speak :: bool

record interaction =
  iid :: nat
  guild :: "snowflake option"
  channel_opt :: "channel option"
  query :: string

text \<open>
  What the libraries answer during one step: \<open>deferReply\<close> resolving, \<open>ytdl.validateURL\<close>,
  \<open>ytdl.getInfo\<close> (\<open>None\<close> is a rejected promise), \<open>joinVoiceChannel\<close> returning rather than
  throwing, the stream and audio resource being created rather than throwing, and the
  status message of the step (\<open>reply\<close>, \<open>editReply\<close> or \<open>followUp\<close>) being delivered.
\<close>

record world =
  defer_ok :: bool
  validateURL :: "string \<Rightarrow> bool"
  getInfo :: "string \<Rightarrow> song option"
  join_ok :: bool
  stream_ok :: bool
  notify_ok :: bool

datatype level = LInfo | LWarn | LError

datatype message =
    OnlyInServer
  | SelectValidVoice
  | LackPermissions
  | InvalidUrl
  | JoinFailed
  | AudioError
  | AddedToQueue string
  | FailedTryAgain
  | NowPlaying string snowflake
  | FailedToPlay

text \<open>
  Every call that leaves the module is recorded, in order. \<open>Play g p sg\<close> is
  \<open>queue.player.play(resource)\<close> for the resource of song \<open>sg\<close> on player \<open>p\<close>, tagged with
  \<open>interaction.guild.id\<close> of the \<open>playSong\<close> call that makes it (the id the same call logs
  with the title). The flag of a message is whether it was delivered; the flag of
  \<open>JoinVoiceChannel\<close> is whether the call returned a connection.
\<close>

datatype effect =
    Log level string
  | DeferReply nat bool
  | Reply nat message bool
  | EditReply nat message bool
  | FollowUp nat message bool
  | CreateAudioPlayer player_id
  | JoinVoiceChannel snowflake snowflake bool
  | Play snowflake player_id song
  | Subscribe conn_id player_id
  | Destroy conn_id

record queue =
  songs :: "song list"
  player :: player_id
  connection :: "conn_id option"

text \<open>
  A registered handler is a closure: it holds the interaction of the call that registered
  it (its guild id and its identity are all the handlers read) and the queue object.
\<close>

record handler =
  h_guild :: snowflake
  h_iid :: nat
  h_queue :: qref

record audio_player =
  on_error :: "handler list"
  on_idle :: "handler list"
  playing :: "song option"

record voice_connection =
  vc_guild :: snowflake
  vc_channel :: snowflake
  destroyed :: bool
  subscription :: "player_id option"

record state =
  queues :: "snowflake \<rightharpoonup> qref"
  heap :: "qref \<Rightarrow> queue"
  next_queue :: nat
  players :: "player_id \<Rightarrow> audio_player"
  next_player :: nat
  conns :: "conn_id \<Rightarrow> voice_connection"
  next_conn :: nat
  trace :: "effect list"

definition init :: state where
  "init = \<lparr>queues = Map.empty,
           heap = (\<lambda>_. \<lparr>songs = [], player = 0, connection = None\<rparr>),
           next_queue = 0,
           players = (\<lambda>_. \<lparr>on_error = [], on_idle = [], playing = None\<rparr>),
           next_player = 0,
           conns = (\<lambda>_. \<lparr>vc_guild = [], vc_channel = [], destroyed = True,
                          subscription = None\<rparr>),
           next_conn = 0,
           trace = []\<rparr>"

text \<open>The promise returned by \<open>execute\<close>.\<close>

datatype outcome = Resolved | Rejected

subsection \<open>Status messages\<close>

definition emit :: "effect list \<Rightarrow> state \<Rightarrow> state" where
  "emit es s = s\<lparr>trace := trace s @ es\<rparr>"

text \<open>\<open>return interaction.reply(...)\<close>: the promise of the message is the command's.\<close>

definition reply_returned :: "world \<Rightarrow> nat \<Rightarrow> message \<Rightarrow> state \<Rightarrow> outcome \<times> state" where
  "reply_returned w n m s =
     (if notify_ok w then Resolved else Rejected, emit [Reply n m (notify_ok w)] s)"

text \<open>\<open>return interaction.editReply(...)\<close>, likewise.\<close>

definition editReply_returned :: "world \<Rightarrow> nat \<Rightarrow> message \<Rightarrow> state \<Rightarrow> outcome \<times> state" where
  "editReply_returned w n m s =
     (if notify_ok w then Resolved else Rejected, emit [EditReply n m (notify_ok w)] s)"

text \<open>
  \<open>await interaction.editReply(...).catch(err => logger.error('Failed to edit reply', ...))\<close>:
  the call waits for the message, so the log line of a rejection precedes whatever follows
  the call.
\<close>

definition editReply_caught :: "world \<Rightarrow> nat \<Rightarrow> message \<Rightarrow> state \<Rightarrow> state" where
  "editReply_caught w n m s =
     emit (EditReply n m (notify_ok w) #
           (if notify_ok w then [] else [Log LError ''Failed to edit reply''])) s"

text \<open>
  \<open>interaction.followUp(...).catch(err => logger.error('Failed to send follow-up', ...))\<close>
  as the last statement of a block: nothing follows the call.
\<close>

definition followUp_caught :: "world \<Rightarrow> nat \<Rightarrow> message \<Rightarrow> state \<Rightarrow> state" where
  "followUp_caught w n m s =
     emit (FollowUp n m (notify_ok w) #
           (if notify_ok w then [] else [Log LError ''Failed to send follow-up''])) s"

text \<open>
  The \<open>.catch\<close> callback of a message that is sent without \<open>await\<close>: the statements after
  the call run first, and the callback logs the rejection once they are done.
\<close>

definition rejected_later :: "world \<Rightarrow> string \<Rightarrow> state \<Rightarrow> state" where
  "rejected_later w txt s = (if notify_ok w then s else emit [Log LError txt] s)"

subsection \<open>playSong\<close>

text \<open>The \<open>catch\<close> block of \<open>playSong\<close>.\<close>

definition playSong_catch :: "world \<Rightarrow> nat \<Rightarrow> state \<Rightarrow> state" where
  "playSong_catch w n s =
     followUp_caught w n FailedToPlay (emit [Log LError ''Error playing song''] s)"

text \<open>
  \<open>playSong(interaction, queue)\<close>, with the interaction given by its guild id \<open>g\<close> and its
  identity \<open>n\<close>. With no song at the head, \<open>song.url\<close> throws inside the \<open>try\<close>; with no
  connection, \<open>queue.connection.subscribe\<close> throws after the player has started. The
  ``Now playing'' message is sent without \<open>await\<close>: \<open>'Playing song'\<close> is logged before the
  rejection of an undelivered message is. \<open>playSong\<close> is the last statement of each of its
  two callers.
\<close>

definition playSong :: "world \<Rightarrow> snowflake \<Rightarrow> nat \<Rightarrow> qref \<Rightarrow> state \<Rightarrow> state" where
  "playSong w g n r s =
     (case songs (heap s r) of
        [] \<Rightarrow> playSong_catch w n s
      | sg # _ \<Rightarrow>
          if \<not> stream_ok w then playSong_catch w n s
          else
            let p = player (heap s r);
                s1 = emit [Play g p sg]
                       (s\<lparr>players := (players s)(p := (players s p)\<lparr>playing := Some sg\<rparr>)\<rparr>)
            in (case connection (heap s1 r) of
                  None \<Rightarrow> playSong_catch w n s1
                | Some c \<Rightarrow>
                    rejected_later w ''Failed to edit reply''
                      (emit [Subscribe c p,
                             EditReply n (NowPlaying (title sg) (vc_channel (conns s1 c)))
                               (notify_ok w),
                             Log LInfo ''Playing song'']
                         (s1\<lparr>conns := (conns s1)
                                (c := (conns s1 c)\<lparr>subscription := Some p\<rparr>)\<rparr>))))"

subsection \<open>The handlers registered on a queue's player\<close>

text \<open>\<open>connection.destroy()\<close>: the connection is no longer live.\<close>

definition destroy :: "conn_id \<Rightarrow> state \<Rightarrow> state" where
  "destroy c s = emit [Destroy c] (s\<lparr>conns := (conns s)(c := (conns s c)\<lparr>destroyed := True\<rparr>)\<rparr>)"

text \<open>
  \<open>queue.player.on('error', ...)\<close>. With no connection \<open>queue.connection.destroy()\<close>
  throws and the handler ends there. The follow-up is sent without \<open>await\<close>: the queue is
  emptied, the connection destroyed and the entry deleted before the rejection of an
  undelivered follow-up is logged.
\<close>

definition on_player_error :: "world \<Rightarrow> handler \<Rightarrow> state \<Rightarrow> state" where
  "on_player_error w h s =
     (let r = h_queue h;
          s1 = emit [Log LError ''Audio player error'',
                     FollowUp (h_iid h) AudioError (notify_ok w)] s;
          s2 = s1\<lparr>heap := (heap s1)(r := (heap s1 r)\<lparr>songs := []\<rparr>)\<rparr>
      in rejected_later w ''Failed to send follow-up''
           (case connection (heap s2 r) of
              None \<Rightarrow> s2
            | Some c \<Rightarrow> (destroy c s2)\<lparr>queues := (queues (destroy c s2))(h_guild h := None)\<rparr>))"

text \<open>\<open>queue.player.on(AudioPlayerStatus.Idle, ...)\<close>; \<open>shift\<close> of an empty array leaves it empty.\<close>

definition on_player_idle :: "world \<Rightarrow> handler \<Rightarrow> state \<Rightarrow> state" where
  "on_player_idle w h s =
     (let r = h_queue h;
          s1 = s\<lparr>heap := (heap s)(r := (heap s r)\<lparr>songs := tl (songs (heap s r))\<rparr>)\<rparr>
      in if length (songs (heap s1 r)) > 0 then playSong w (h_guild h) (h_iid h) r s1
         else (case connection (heap s1 r) of
                 None \<Rightarrow> s1
               | Some c \<Rightarrow>
                   emit [Log LInfo ''Queue empty, disconnected from voice channel'']
                     ((destroy c s1)\<lparr>queues := (queues (destroy c s1))(h_guild h := None)\<rparr>)))"

subsection \<open>execute\<close>

text \<open>
  ``Initialize queue for the guild'': the queue of the guild, or a new one with a new
  player, registered in the map.
\<close>

definition initialize_queue :: "snowflake \<Rightarrow> state \<Rightarrow> qref \<times> state" where
  "initialize_queue g s =
     (case queues s g of
        Some r \<Rightarrow> (r, s)
      | None \<Rightarrow>
          (next_queue s,
           emit [CreateAudioPlayer (next_player s)]
             (s\<lparr>players := (players s)
                   (next_player s := \<lparr>on_error = [], on_idle = [], playing = None\<rparr>),
                next_player := Suc (next_player s),
                heap := (heap s)
                   (next_queue s := \<lparr>songs = [], player = next_player s, connection = None\<rparr>),
                next_queue := Suc (next_queue s),
                queues := (queues s)(g \<mapsto> next_queue s)\<rparr>)))"

text \<open>\<open>queue.songs.push(song)\<close>.\<close>

definition push :: "qref \<Rightarrow> song \<Rightarrow> state \<Rightarrow> state" where
  "push r sg s = s\<lparr>heap := (heap s)(r := (heap s r)\<lparr>songs := songs (heap s r) @ [sg]\<rparr>)\<rparr>"

text \<open>\<open>joinVoiceChannel\<close> returning a connection, stored in \<open>queue.connection\<close>.\<close>

definition join :: "snowflake \<Rightarrow> channel \<Rightarrow> qref \<Rightarrow> state \<Rightarrow> state" where
  "join g vc r s =
     emit [JoinVoiceChannel g (ch_id vc) True, Log LInfo ''Bot joined voice channel'']
       (s\<lparr>conns := (conns s)
             (next_conn s := \<lparr>vc_guild = g, vc_channel = ch_id vc, destroyed = False,
                              subscription = None\<rparr>),
          next_conn := Suc (next_conn s),
          heap := (heap s)(r := (heap s r)\<lparr>connection := Some (next_conn s)\<rparr>)\<rparr>)"

text \<open>The two \<open>queue.player.on\<close> calls.\<close>

definition register_handlers :: "snowflake \<Rightarrow> nat \<Rightarrow> qref \<Rightarrow> state \<Rightarrow> state" where
  "register_handlers g n r s =
     (let p = player (heap s r); h = \<lparr>h_guild = g, h_iid = n, h_queue = r\<rparr>
      in s\<lparr>players := (players s)
              (p := (players s p)\<lparr>on_error := on_error (players s p) @ [h],
                                  on_idle := on_idle (players s p) @ [h]\<rparr>)\<rparr>)"

text \<open>``Play song if queue was empty''.\<close>

definition play_or_added :: "world \<Rightarrow> snowflake \<Rightarrow> nat \<Rightarrow> song \<Rightarrow> qref \<Rightarrow> state \<Rightarrow> state" where
  "play_or_added w g n sg r s =
     (if length (songs (heap s r)) = 1 then playSong w g n r s
      else editReply_caught w n (AddedToQueue (title sg)) s)"

text \<open>
  The part of \<open>execute\<close> after the song has been resolved. It is the only part that reads or
  writes the map, and it runs without an \<open>await\<close> up to its last statement.
\<close>

definition enqueue :: "world \<Rightarrow> interaction \<Rightarrow> snowflake \<Rightarrow> channel \<Rightarrow> song \<Rightarrow> state
    \<Rightarrow> outcome \<times> state" where
  "enqueue w i g vc sg s =
     (let (r, s1) = initialize_queue g s;
          s2 = push r sg s1
      in if connection (heap s2 r) = None then
           (if join_ok w
            then (Resolved,
                  play_or_added w g (iid i) sg r (register_handlers g (iid i) r (join g vc r s2)))
            else
              let s3 = emit [JoinVoiceChannel g (ch_id vc) False,
                             Log LError ''Failed to join voice channel''] s2
              in editReply_returned w (iid i) JoinFailed (s3\<lparr>queues := (queues s3)(g := None)\<rparr>))
         else (Resolved, play_or_added w g (iid i) sg r s2))"

text \<open>
  \<open>execute(interaction)\<close>. Its two suspensions (\<open>deferReply\<close> and \<open>ytdl.getInfo\<close>) come before
  the first access to the map, so a call is one step on the state, taken when the lookup has
  resolved; the log lines and messages of the call are recorded together at that step. The
  two phases of a call, with other calls and signals between them, are taken apart below.
\<close>

definition execute :: "world \<Rightarrow> interaction \<Rightarrow> state \<Rightarrow> outcome \<times> state" where
  "execute w i s =
     (let s0 = emit [Log LInfo ''Executing command''] s in
      case guild i of
        None \<Rightarrow>
          reply_returned w (iid i) OnlyInServer
            (emit [Log LWarn ''Play command used outside a guild''] s0)
      | Some g \<Rightarrow>
          (case channel_opt i of
             None \<Rightarrow>
               reply_returned w (iid i) SelectValidVoice
                 (emit [Log LWarn ''Invalid or non-voice channel selected''] s0)
           | Some vc \<Rightarrow>
               if ch_type vc \<noteq> GuildVoice then
                 reply_returned w (iid i) SelectValidVoice
                   (emit [Log LWarn ''Invalid or non-voice channel selected''] s0)
               else if \<not> (can_connect vc \<and> can_speak vc) then
                 reply_returned w (iid i) LackPermissions
                   (emit [Log LWarn ''Bot lacks voice channel permissions''] s0)
               else
                 let s1 = emit [Log LInfo ''Voice channel selected''] s0 in
                 if \<not> defer_ok w then
                   (Resolved,
                    emit [DeferReply (iid i) False, Log LError ''Failed to defer reply''] s1)
                 else
                   let s2 = emit [DeferReply (iid i) True] s1 in
                   if \<not> validateURL w (query i) then
                     editReply_returned w (iid i) InvalidUrl
                       (emit [Log LWarn ''Invalid YouTube URL provided''] s2)
                   else
                     (case getInfo w (query i) of
                        None \<Rightarrow>
                          (Resolved,
                           editReply_caught w (iid i) FailedTryAgain
                             (emit [Log LError ''Error in play command''] s2))
                      | Some sg \<Rightarrow>
                          enqueue w i g vc sg (emit [Log LInfo ''Fetched song info''] s2))))"

subsection \<open>Events\<close>

text \<open>
  Modelled from the spec: the player handle of the voice library, which the spec describes
  as emitting the discrete signals \<open>idle\<close> (the current resource finished playing) and
  \<open>error\<close>. A player signals only for a resource it is playing, and the signal ends that
  resource; the listeners then run in the order of their registration. The event loop runs
  one event at a time: a call of the command, or a signal of a player.
\<close>

datatype signal = Idle | PlayerError

datatype event = Execute world interaction | Signal world player_id signal

definition emit_signal :: "world \<Rightarrow> player_id \<Rightarrow> signal \<Rightarrow> state \<Rightarrow> state" where
  "emit_signal w p k s =
     (let s1 = s\<lparr>players := (players s)(p := (players s p)\<lparr>playing := None\<rparr>)\<rparr>
      in case k of
           Idle \<Rightarrow> foldl (\<lambda>t h. on_player_idle w h t) s1 (on_idle (players s1 p))
         | PlayerError \<Rightarrow> foldl (\<lambda>t h. on_player_error w h t) s1 (on_error (players s1 p)))"

fun fire :: "event \<Rightarrow> state \<Rightarrow> state option" where
  "fire (Execute w i) s = Some (snd (execute w i s))"
| "fire (Signal w p k) s =
     (if p < next_player s \<and> playing (players s p) \<noteq> None then Some (emit_signal w p k s)
      else None)"

fun run :: "event list \<Rightarrow> state \<Rightarrow> state option" where
  "run [] s = Some s"
| "run (e # es) s = (case fire e s of None \<Rightarrow> None | Some s' \<Rightarrow> run es s')"

subsection \<open>Observations on a state\<close>

text \<open>The state without the record of effects: the map and the three object stores.\<close>

definition store :: "state \<Rightarrow> state" where
  "store s = s\<lparr>trace := []\<rparr>"

text \<open>The songs of the guild's queue, none when the guild has no queue.\<close>

definition pending :: "snowflake \<Rightarrow> state \<Rightarrow> song list" where
  "pending g s = (case queues s g of None \<Rightarrow> [] | Some r \<Rightarrow> songs (heap s r))"

text \<open>The connection handle of the guild's queue.\<close>

definition handle :: "snowflake \<Rightarrow> state \<Rightarrow> conn_id option" where
  "handle g s = (case queues s g of None \<Rightarrow> None | Some r \<Rightarrow> connection (heap s r))"

text \<open>The song the player of the guild's queue is playing.\<close>

definition now_playing :: "snowflake \<Rightarrow> state \<Rightarrow> song option" where
  "now_playing g s =
     (case queues s g of None \<Rightarrow> None | Some r \<Rightarrow> playing (players s (player (heap s r))))"

text \<open>The songs handed to a player for a guild, in the order of the calls.\<close>

fun played :: "snowflake \<Rightarrow> effect list \<Rightarrow> song list" where
  "played g [] = []"
| "played g (Play g' p sg # es) = (if g' = g then sg # played g es else played g es)"
| "played g (_ # es) = played g es"

text \<open>The calls of \<open>joinVoiceChannel\<close> in a record of effects.\<close>

fun joins :: "effect list \<Rightarrow> nat" where
  "joins [] = 0"
| "joins (JoinVoiceChannel g ch ok # es) = Suc (joins es)"
| "joins (_ # es) = joins es"

text \<open>The checks of \<open>execute\<close> before \<open>deferReply\<close>: a guild, a guild voice channel, and
  the permissions to connect and to speak.\<close>

definition accepted :: "interaction \<Rightarrow> bool" where
  "accepted i =
     (guild i \<noteq> None \<and>
      (case channel_opt i of
         None \<Rightarrow> False
       | Some vc \<Rightarrow> ch_type vc = GuildVoice \<and> can_connect vc \<and> can_speak vc))"

text \<open>The song a call of the command resolves, when it gets that far.\<close>

definition resolved :: "world \<Rightarrow> interaction \<Rightarrow> song option" where
  "resolved w i =
     (if accepted i \<and> defer_ok w \<and> validateURL w (query i) then getInfo w (query i) else None)"

text \<open>
  The songs the calls for a guild resolved, in the order of the events: the order in which
  the lookups of the calls completed, which is not the order in which the commands arrived
  when calls overlap. The events of a run without connection errors: no call fails to
  join, and every signal is \<open>idle\<close>. The events of a run in which moreover every stream
  opens.
\<close>

fun completed :: "snowflake \<Rightarrow> event list \<Rightarrow> song list" where
  "completed g [] = []"
| "completed g (Execute w i # es) =
     (case resolved w i of
        Some sg \<Rightarrow> (if guild i = Some g then sg # completed g es else completed g es)
      | None \<Rightarrow> completed g es)"
| "completed g (Signal w p k # es) = completed g es"



subsection \<open>The two phases of a call\<close>











subsection \<open>The invariant of the reachable states\<close>

text \<open>
  Players and queue objects are created together; a queue in the map has songs, a live
  connection of its guild, and exactly the two handlers of its own guild and object on its
  player; a player plays only the head of a queue that is in the map; a live connection is
  the connection of the queue of its guild.
\<close>

definition inv :: "state \<Rightarrow> bool" where
  "inv s \<longleftrightarrow>
     next_player s = next_queue s \<and>
     (\<forall>r < next_queue s. player (heap s r) = r) \<and>
     (\<forall>g r. queues s g = Some r \<longrightarrow>
        r < next_queue s \<and> songs (heap s r) \<noteq> [] \<and>
        (\<exists>n. on_error (players s r) = [\<lparr>h_guild = g, h_iid = n, h_queue = r\<rparr>] \<and>
             on_idle (players s r) = [\<lparr>h_guild = g, h_iid = n, h_queue = r\<rparr>]) \<and>
        (\<exists>c. connection (heap s r) = Some c \<and> c < next_conn s \<and>
             \<not> destroyed (conns s c) \<and> vc_guild (conns s c) = g)) \<and>
     (\<forall>r < next_queue s. \<forall>sg. playing (players s r) = Some sg \<longrightarrow>
        (\<exists>g. queues s g = Some r) \<and> songs (heap s r) \<noteq> [] \<and> sg = hd (songs (heap s r))) \<and>
     (\<forall>c < next_conn s. \<not> destroyed (conns s c) \<longrightarrow>
        (\<exists>r. queues s (vc_guild (conns s c)) = Some r \<and> connection (heap s r) = Some c))"




subsection \<open>A scenario\<close>

text \<open>
  A guild \<open>G\<close> with two voice channels; track \<open>A\<close> is requested for the first channel, then
  track \<open>B\<close> for the second; a third request comes from outside any guild.
\<close>

definition all_well :: world where
  "all_well = \<lparr>defer_ok = True, validateURL = (\<lambda>_. True),
               getInfo = (\<lambda>q. Some \<lparr>title = q, url = q\<rparr>),
               join_ok = True, stream_ok = True, notify_ok = True\<rparr>"

definition lounge :: channel where
  "lounge = \<lparr>ch_id = ''V1'', ch_type = GuildVoice, can_connect = True, can_speak = True\<rparr>"

definition studio :: channel where
  "studio = \<lparr>ch_id = ''V2'', ch_type = GuildVoice, can_connect = True, can_speak = True\<rparr>"

definition request_A :: interaction where
  "request_A = \<lparr>iid = 1, guild = Some ''G'', channel_opt = Some lounge, query = ''A''\<rparr>"

definition request_B :: interaction where
  "request_B = \<lparr>iid = 2, guild = Some ''G'', channel_opt = Some studio, query = ''B''\<rparr>"

definition request_dm :: interaction where
  "request_dm = \<lparr>iid = 3, guild = None, channel_opt = Some lounge, query = ''A''\<rparr>"

definition song_A :: song where
  "song_A = \<lparr>title = ''A'', url = ''A''\<rparr>"

definition song_B :: song where
  "song_B = \<lparr>title = ''B'', url = ''B''\<rparr>"

definition after_A :: state where
  "after_A = snd (execute all_well request_A init)"

definition after_AB :: state where
  "after_AB = snd (execute all_well request_B after_A)"

definition after_A_idle :: state where
  "after_A_idle = emit_signal all_well 0 Idle after_AB"







section \<open>Lemmas\<close>

subsection \<open>The store and the record of effects\<close>

lemma store_simps [simp]:
  "queues (store s) = queues s" "heap (store s) = heap s" "next_queue (store s) = next_queue s"
  "players (store s) = players s" "next_player (store s) = next_player s"
  "conns (store s) = conns s" "next_conn (store s) = next_conn s" "trace (store s) = []"
  by (simp_all add: store_def)

lemma store_emit [simp]: "store (emit es s) = store s"
  by (simp add: store_def emit_def)

lemma store_caught [simp]:
  "store (editReply_caught w n m s) = store s"
  "store (followUp_caught w n m s) = store s"
  "store (playSong_catch w n s) = store s"
  "store (rejected_later w txt s) = store s"
  by (simp_all add: editReply_caught_def followUp_caught_def rejected_later_def playSong_catch_def)

lemma inv_store: "inv (store s) = inv s"
  by (simp add: inv_def)

lemma inv_cong: "store s' = store s \<Longrightarrow> inv s' = inv s"
  by (metis inv_store)

lemma inv_init: "inv init"
  by (simp add: inv_def init_def)

lemma invI:
  assumes "next_player s = next_queue s"
    and "\<And>r. r < next_queue s \<Longrightarrow> player (heap s r) = r"
    and "\<And>g r. queues s g = Some r \<Longrightarrow>
           r < next_queue s \<and> songs (heap s r) \<noteq> [] \<and>
           (\<exists>n. on_error (players s r) = [\<lparr>h_guild = g, h_iid = n, h_queue = r\<rparr>] \<and>
                on_idle (players s r) = [\<lparr>h_guild = g, h_iid = n, h_queue = r\<rparr>]) \<and>
           (\<exists>c. connection (heap s r) = Some c \<and> c < next_conn s \<and>
                \<not> destroyed (conns s c) \<and> vc_guild (conns s c) = g)"
    and "\<And>r sg. r < next_queue s \<Longrightarrow> playing (players s r) = Some sg \<Longrightarrow>
           (\<exists>g. queues s g = Some r) \<and> songs (heap s r) \<noteq> [] \<and> sg = hd (songs (heap s r))"
    and "\<And>c. c < next_conn s \<Longrightarrow> \<not> destroyed (conns s c) \<Longrightarrow>
           \<exists>r. queues s (vc_guild (conns s c)) = Some r \<and> connection (heap s r) = Some c"
  shows "inv s"
  unfolding inv_def using assms by blast

lemma inv_players: "inv s \<Longrightarrow> next_player s = next_queue s"
  by (simp add: inv_def)

lemma inv_player: "inv s \<Longrightarrow> r < next_queue s \<Longrightarrow> player (heap s r) = r"
  by (simp add: inv_def)

lemma inv_entry:
  assumes "inv s" "queues s g = Some r"
  obtains n c where "r < next_queue s" "songs (heap s r) \<noteq> []"
    "on_error (players s r) = [\<lparr>h_guild = g, h_iid = n, h_queue = r\<rparr>]"
    "on_idle (players s r) = [\<lparr>h_guild = g, h_iid = n, h_queue = r\<rparr>]"
    "connection (heap s r) = Some c" "c < next_conn s"
    "\<not> destroyed (conns s c)" "vc_guild (conns s c) = g"
  using assms unfolding inv_def by blast

lemma inv_playing:
  assumes "inv s" "r < next_queue s" "playing (players s r) = Some sg"
  shows "\<exists>g. queues s g = Some r" "songs (heap s r) \<noteq> []" "sg = hd (songs (heap s r))"
  using assms unfolding inv_def by blast+

lemma inv_live:
  assumes "inv s" "c < next_conn s" "\<not> destroyed (conns s c)"
  shows "\<exists>r. queues s (vc_guild (conns s c)) = Some r \<and> connection (heap s r) = Some c"
  using assms unfolding inv_def by blast

lemma inv_inj:
  assumes "inv s" "queues s g = Some r" "queues s g' = Some r"
  shows "g' = g"
proof -
  from assms(1,2) obtain n where "on_error (players s r) = [\<lparr>h_guild = g, h_iid = n, h_queue = r\<rparr>]"
    by (rule inv_entry)
  moreover from assms(1,3) obtain n' where
    "on_error (players s r) = [\<lparr>h_guild = g', h_iid = n', h_queue = r\<rparr>]"
    by (rule inv_entry)
  ultimately show ?thesis by simp
qed

lemma inv_conn_inj:
  assumes "inv s" "queues s g = Some r" "queues s g' = Some r'"
    "connection (heap s r) = Some c" "connection (heap s r') = Some c"
  shows "g' = g \<and> r' = r"
proof -
  from assms(1,2) assms(4) have "vc_guild (conns s c) = g"
    by (auto elim: inv_entry)
  moreover from assms(1,3) assms(5) have "vc_guild (conns s c) = g'"
    by (auto elim: inv_entry)
  ultimately show ?thesis using assms(2,3) by simp
qed

lemma inv_push:
  assumes "inv s" "queues s g = Some r"
  shows "inv (push r sg s)"
proof (rule invI)
  let ?t = "push r sg s"
  show "next_player ?t = next_queue ?t" using assms(1) by (simp add: push_def inv_players)
  show "player (heap ?t r') = r'" if "r' < next_queue ?t" for r'
    using that assms(1) by (simp add: push_def inv_player)
  show "r' < next_queue ?t \<and> songs (heap ?t r') \<noteq> [] \<and>
           (\<exists>n. on_error (players ?t r') = [\<lparr>h_guild = g', h_iid = n, h_queue = r'\<rparr>] \<and>
                on_idle (players ?t r') = [\<lparr>h_guild = g', h_iid = n, h_queue = r'\<rparr>]) \<and>
           (\<exists>c. connection (heap ?t r') = Some c \<and> c < next_conn ?t \<and>
                \<not> destroyed (conns ?t c) \<and> vc_guild (conns ?t c) = g')"
    if "queues ?t g' = Some r'" for g' r'
  proof -
    from that have "queues s g' = Some r'" by (simp add: push_def)
    from inv_entry [OF assms(1) this] show ?thesis
      by (auto simp: push_def)
  qed
  show "(\<exists>g. queues ?t g = Some r') \<and> songs (heap ?t r') \<noteq> [] \<and> sg' = hd (songs (heap ?t r'))"
    if "r' < next_queue ?t" "playing (players ?t r') = Some sg'" for r' sg'
    using that inv_playing [OF assms(1), of r' sg'] by (auto simp: push_def)
  show "\<exists>r'. queues ?t (vc_guild (conns ?t c)) = Some r' \<and> connection (heap ?t r') = Some c"
    if "c < next_conn ?t" "\<not> destroyed (conns ?t c)" for c
    using that inv_live [OF assms(1), of c] by (auto simp: push_def)
qed

lemma enqueue_existing:
  assumes "queues s g = Some r" "connection (heap s r) = Some c" "songs (heap s r) \<noteq> []"
  shows "enqueue w i g vc sg s =
           (Resolved, editReply_caught w (iid i) (AddedToQueue (title sg)) (push r sg s))"
  using assms
  by (simp add: enqueue_def initialize_queue_def push_def play_or_added_def)

lemma enqueue_new_failed:
  assumes "queues s g = None" "\<not> join_ok w"
  shows "store (snd (enqueue w i g vc sg s)) =
           store (s\<lparr>players := (players s)
                      (next_player s := \<lparr>on_error = [], on_idle = [], playing = None\<rparr>),
                   next_player := Suc (next_player s),
                   heap := (heap s)
                      (next_queue s := \<lparr>songs = [sg], player = next_player s, connection = None\<rparr>),
                   next_queue := Suc (next_queue s)\<rparr>)"
  using assms
  by (simp add: enqueue_def initialize_queue_def push_def editReply_returned_def emit_def store_def
      fun_upd_idem_iff)

lemma enqueue_new_joined:
  assumes "queues s g = None" "join_ok w"
  shows "store (snd (enqueue w i g vc sg s)) =
           store (s\<lparr>players := (players s)
                      (next_player s :=
                         \<lparr>on_error = [\<lparr>h_guild = g, h_iid = iid i, h_queue = next_queue s\<rparr>],
                          on_idle = [\<lparr>h_guild = g, h_iid = iid i, h_queue = next_queue s\<rparr>],
                          playing = (if stream_ok w then Some sg else None)\<rparr>),
                   next_player := Suc (next_player s),
                   heap := (heap s)
                      (next_queue s :=
                         \<lparr>songs = [sg], player = next_player s, connection = Some (next_conn s)\<rparr>),
                   next_queue := Suc (next_queue s),
                   queues := (queues s)(g \<mapsto> next_queue s),
                   conns := (conns s)
                      (next_conn s := \<lparr>vc_guild = g, vc_channel = ch_id vc, destroyed = False,
                                       subscription = (if stream_ok w then Some (next_player s) else None)\<rparr>),
                   next_conn := Suc (next_conn s)\<rparr>)"
  using assms
  by (simp add: enqueue_def initialize_queue_def push_def editReply_returned_def emit_def store_def
      join_def register_handlers_def play_or_added_def playSong_def playSong_catch_def
      followUp_caught_def rejected_later_def editReply_caught_def Let_def)

lemma inv_enqueue_failed:
  assumes "inv s" "queues s g = None" "\<not> join_ok w"
  shows "inv (snd (enqueue w i g vc sg s))"
proof -
  let ?t = "s\<lparr>players := (players s)
                      (next_player s := \<lparr>on_error = [], on_idle = [], playing = None\<rparr>),
                   next_player := Suc (next_player s),
                   heap := (heap s)
                      (next_queue s := \<lparr>songs = [sg], player = next_player s, connection = None\<rparr>),
                   next_queue := Suc (next_queue s)\<rparr>"
  have "inv ?t"
  proof (rule invI, goal_cases)
    case 1
    show ?case using assms(1) by (simp add: inv_players)
  next
    case (2 r)
    then show ?case using assms(1) by (auto simp: inv_players inv_player less_Suc_eq)
  next
    case (3 g' r')
    then have "queues s g' = Some r'" by simp
    from inv_entry [OF assms(1) this] obtain n c where
      "r' < next_queue s" "songs (heap s r') \<noteq> []"
      "on_error (players s r') = [\<lparr>h_guild = g', h_iid = n, h_queue = r'\<rparr>]"
      "on_idle (players s r') = [\<lparr>h_guild = g', h_iid = n, h_queue = r'\<rparr>]"
      "connection (heap s r') = Some c" "c < next_conn s"
      "\<not> destroyed (conns s c)" "vc_guild (conns s c) = g'" by blast
    then show ?case
      using inv_players [OF assms(1)] by (auto simp: less_Suc_eq)
  next
    case (4 r' sg')
    then show ?case
      using inv_playing [OF assms(1), of r' sg'] inv_players [OF assms(1)]
      by (auto simp: less_Suc_eq split: if_splits)
  next
    case (5 c)
    then have "c < next_conn s" "\<not> destroyed (conns s c)" by simp_all
    from inv_live [OF assms(1) this] obtain r' where
      r': "queues s (vc_guild (conns s c)) = Some r'" "connection (heap s r') = Some c"
      by blast
    from inv_entry [OF assms(1) r'(1)] have "r' < next_queue s" by blast
    with r' show ?case by auto
  qed
  then show ?thesis
    using inv_cong [OF enqueue_new_failed [OF assms(2,3)]] by simp
qed

lemma inv_enqueue_joined:
  assumes "inv s" "queues s g = None" "join_ok w"
  shows "inv (snd (enqueue w i g vc sg s))"
proof -
  let ?t = "s\<lparr>players := (players s)
                      (next_player s :=
                         \<lparr>on_error = [\<lparr>h_guild = g, h_iid = iid i, h_queue = next_queue s\<rparr>],
                          on_idle = [\<lparr>h_guild = g, h_iid = iid i, h_queue = next_queue s\<rparr>],
                          playing = (if stream_ok w then Some sg else None)\<rparr>),
                   next_player := Suc (next_player s),
                   heap := (heap s)
                      (next_queue s :=
                         \<lparr>songs = [sg], player = next_player s, connection = Some (next_conn s)\<rparr>),
                   next_queue := Suc (next_queue s),
                   queues := (queues s)(g \<mapsto> next_queue s),
                   conns := (conns s)
                      (next_conn s := \<lparr>vc_guild = g, vc_channel = ch_id vc, destroyed = False,
                                       subscription = (if stream_ok w then Some (next_player s) else None)\<rparr>),
                   next_conn := Suc (next_conn s)\<rparr>"
  note np = inv_players [OF assms(1)]
  have "inv ?t"
  proof (rule invI, goal_cases)
    case 1
    show ?case using np by simp
  next
    case (2 r)
    then show ?case using assms(1) np by (auto simp: inv_player less_Suc_eq)
  next
    case (3 g' r')
    show ?case
    proof (cases "g' = g")
      case True
      with 3 show ?thesis using np by auto
    next
      case False
      with 3 have "queues s g' = Some r'" by simp
      from inv_entry [OF assms(1) this] obtain n c where
        "r' < next_queue s" "songs (heap s r') \<noteq> []"
        "on_error (players s r') = [\<lparr>h_guild = g', h_iid = n, h_queue = r'\<rparr>]"
        "on_idle (players s r') = [\<lparr>h_guild = g', h_iid = n, h_queue = r'\<rparr>]"
        "connection (heap s r') = Some c" "c < next_conn s"
        "\<not> destroyed (conns s c)" "vc_guild (conns s c) = g'" by blast
      then show ?thesis
        using np False by (auto simp: less_Suc_eq)
    qed
  next
    case (4 r' sg')
    show ?case
    proof (cases "r' = next_queue s")
      case True
      with 4 show ?thesis using np by (auto split: if_splits)
    next
      case False
      with 4 have *: "r' < next_queue s" "playing (players s r') = Some sg'"
        using np by (auto simp: less_Suc_eq)
      from inv_playing [OF assms(1) *] obtain g' where g': "queues s g' = Some r'"
        and **: "songs (heap s r') \<noteq> []" "sg' = hd (songs (heap s r'))" by blast
      from g' assms(2) have "g' \<noteq> g" by auto
      with g' ** False show ?thesis by auto
    qed
  next
    case (5 c)
    show ?case
    proof (cases "c = next_conn s")
      case True
      then show ?thesis by simp
    next
      case False
      with 5 have "c < next_conn s" "\<not> destroyed (conns s c)" by (simp_all add: less_Suc_eq)
      from inv_live [OF assms(1) this] obtain r' where
        r': "queues s (vc_guild (conns s c)) = Some r'" "connection (heap s r') = Some c"
        by blast
      from inv_entry [OF assms(1) r'(1)] have "r' < next_queue s" by blast
      moreover from r'(1) assms(2) have "vc_guild (conns s c) \<noteq> g" by auto
      ultimately show ?thesis using r' False by auto
    qed
  qed
  then show ?thesis
    using inv_cong [OF enqueue_new_joined [OF assms(2,3)]] by simp
qed

lemma inv_enqueue:
  assumes "inv s"
  shows "inv (snd (enqueue w i g vc sg s))"
proof (cases "queues s g")
  case None
  then show ?thesis
    using inv_enqueue_failed [OF assms None] inv_enqueue_joined [OF assms None]
    by (cases "join_ok w") auto
next
  case (Some r)
  from inv_entry [OF assms Some] obtain c where
    "connection (heap s r) = Some c" "songs (heap s r) \<noteq> []" by blast
  from enqueue_existing [OF Some this] inv_push [OF assms Some, of sg]
  show ?thesis by (simp add: inv_cong [OF store_caught(1)])
qed

subsection \<open>The command preserves the invariant\<close>

lemma execute_unresolved:
  assumes "resolved w i = None"
  shows "store (snd (execute w i s)) = store s"
proof (cases "guild i")
  case None
  then show ?thesis by (simp add: execute_def reply_returned_def Let_def)
next
  case g: (Some g)
  show ?thesis
  proof (cases "channel_opt i")
    case None
    with g show ?thesis by (simp add: execute_def reply_returned_def Let_def)
  next
    case (Some vc)
    show ?thesis
    proof (cases "accepted i \<and> defer_ok w \<and> validateURL w (query i)")
      case True
      with assms have "getInfo w (query i) = None" by (simp add: resolved_def)
      with True g Some show ?thesis
        by (simp add: execute_def accepted_def Let_def)
    next
      case False
      with g Some show ?thesis
        by (auto simp: execute_def accepted_def reply_returned_def editReply_returned_def Let_def)
    qed
  qed
qed

lemma execute_resolved:
  assumes "resolved w i = Some sg"
  obtains g vc where "guild i = Some g" "channel_opt i = Some vc"
    "execute w i s =
       enqueue w i g vc sg
         (emit [Log LInfo ''Executing command'', Log LInfo ''Voice channel selected'',
                DeferReply (iid i) True, Log LInfo ''Fetched song info''] s)"
proof -
  from assms have a: "accepted i" "defer_ok w" "validateURL w (query i)"
    "getInfo w (query i) = Some sg"
    by (simp_all add: resolved_def split: if_split_asm)
  from a(1) obtain g vc where gv: "guild i = Some g" "channel_opt i = Some vc"
    "ch_type vc = GuildVoice" "can_connect vc" "can_speak vc"
    by (auto simp: accepted_def split: option.splits)
  with a have "execute w i s =
       enqueue w i g vc sg
         (emit [Log LInfo ''Executing command'', Log LInfo ''Voice channel selected'',
                DeferReply (iid i) True, Log LInfo ''Fetched song info''] s)"
    by (simp add: execute_def Let_def emit_def)
  with gv show ?thesis using that by blast
qed

lemma inv_execute:
  assumes "inv s"
  shows "inv (snd (execute w i s))"
proof (cases "resolved w i")
  case None
  from inv_cong [OF execute_unresolved [OF this]] assms show ?thesis
    by simp
next
  case (Some sg)
  from execute_resolved [OF this, of s] obtain g vc where
    e: "execute w i s =
       enqueue w i g vc sg
         (emit [Log LInfo ''Executing command'', Log LInfo ''Voice channel selected'',
                DeferReply (iid i) True, Log LInfo ''Fetched song info''] s)"
    by blast
  have "inv (emit [Log LInfo ''Executing command'', Log LInfo ''Voice channel selected'',
                DeferReply (iid i) True, Log LInfo ''Fetched song info''] s)"
    using assms by (simp add: inv_cong [OF store_emit])
  from inv_enqueue [OF this] show ?thesis
    unfolding e .
qed

lemma signal_advance:
  assumes "player (heap s r) = r" "on_idle (players s r) = [\<lparr>h_guild = g, h_iid = n, h_queue = r\<rparr>]"
    "songs (heap s r) = x # y # ys" "connection (heap s r) = Some c"
  shows "store (emit_signal w r Idle s) =
     store (s\<lparr>players := (players s)
                 (r := (players s r)\<lparr>playing := (if stream_ok w then Some y else None)\<rparr>),
              heap := (heap s)(r := (heap s r)\<lparr>songs := y # ys\<rparr>),
              conns := (conns s)
                 (c := (conns s c)\<lparr>subscription :=
                        (if stream_ok w then Some r else subscription (conns s c))\<rparr>)\<rparr>)"
  using assms
  by (simp add: emit_signal_def on_player_idle_def playSong_def playSong_catch_def Let_def
      followUp_caught_def rejected_later_def editReply_caught_def emit_def store_def)

lemma signal_drain:
  assumes "on_idle (players s r) = [\<lparr>h_guild = g, h_iid = n, h_queue = r\<rparr>]"
    "songs (heap s r) = [x]" "connection (heap s r) = Some c"
  shows "store (emit_signal w r Idle s) =
     store (s\<lparr>players := (players s)(r := (players s r)\<lparr>playing := None\<rparr>),
              heap := (heap s)(r := (heap s r)\<lparr>songs := []\<rparr>),
              conns := (conns s)(c := (conns s c)\<lparr>destroyed := True\<rparr>),
              queues := (queues s)(g := None)\<rparr>)"
  using assms
  by (simp add: emit_signal_def on_player_idle_def Let_def destroy_def emit_def store_def)

lemma signal_error:
  assumes "on_error (players s r) = [\<lparr>h_guild = g, h_iid = n, h_queue = r\<rparr>]"
    "connection (heap s r) = Some c"
  shows "store (emit_signal w r PlayerError s) =
     store (s\<lparr>players := (players s)(r := (players s r)\<lparr>playing := None\<rparr>),
              heap := (heap s)(r := (heap s r)\<lparr>songs := []\<rparr>),
              conns := (conns s)(c := (conns s c)\<lparr>destroyed := True\<rparr>),
              queues := (queues s)(g := None)\<rparr>)"
  using assms
  by (simp add: emit_signal_def on_player_error_def Let_def destroy_def emit_def store_def
      followUp_caught_def rejected_later_def)

subsection \<open>Signals preserve the invariant\<close>

lemma inv_advance:
  assumes "inv s" "queues s g = Some r" "songs (heap s r) = x # y # ys"
    "connection (heap s r) = Some c"
  shows "inv (s\<lparr>players := (players s)
                 (r := (players s r)\<lparr>playing := (if ok then Some y else None)\<rparr>),
              heap := (heap s)(r := (heap s r)\<lparr>songs := y # ys\<rparr>),
              conns := (conns s)
                 (c := (conns s c)\<lparr>subscription :=
                        (if ok then Some r else subscription (conns s c))\<rparr>)\<rparr>)"
    (is "inv ?t")
proof (rule invI, goal_cases)
  case 1
  show ?case using assms(1) by (simp add: inv_players)
next
  case (2 r')
  then show ?case using assms(1) by (auto simp: inv_player)
next
  case (3 g' r')
  then have "queues s g' = Some r'" by simp
  from inv_entry [OF assms(1) this] obtain n c' where
    "r' < next_queue s" "songs (heap s r') \<noteq> []"
    "on_error (players s r') = [\<lparr>h_guild = g', h_iid = n, h_queue = r'\<rparr>]"
    "on_idle (players s r') = [\<lparr>h_guild = g', h_iid = n, h_queue = r'\<rparr>]"
    "connection (heap s r') = Some c'" "c' < next_conn s"
    "\<not> destroyed (conns s c')" "vc_guild (conns s c') = g'" by blast
  then show ?case by auto
next
  case (4 r' sg')
  show ?case
  proof (cases "r' = r")
    case True
    with 4 assms(2) show ?thesis by (auto split: if_splits)
  next
    case False
    with 4 have "r' < next_queue s" "playing (players s r') = Some sg'" by auto
    from inv_playing [OF assms(1) this] False show ?thesis by auto
  qed
next
  case (5 c')
  then have "c' < next_conn s" "\<not> destroyed (conns s c')" by (auto split: if_splits)
  from inv_live [OF assms(1) this] show ?case by auto
qed

lemma inv_teardown:
  assumes "inv s" "queues s g = Some r" "connection (heap s r) = Some c"
  shows "inv (s\<lparr>players := (players s)(r := (players s r)\<lparr>playing := None\<rparr>),
              heap := (heap s)(r := (heap s r)\<lparr>songs := []\<rparr>),
              conns := (conns s)(c := (conns s c)\<lparr>destroyed := True\<rparr>),
              queues := (queues s)(g := None)\<rparr>)"
    (is "inv ?t")
proof (rule invI, goal_cases)
  case 1
  show ?case using assms(1) by (simp add: inv_players)
next
  case (2 r')
  then show ?case using assms(1) by (auto simp: inv_player)
next
  case (3 g' r')
  then have q: "queues s g' = Some r'" and ne: "g' \<noteq> g" by (auto split: if_splits)
  from inv_inj [OF assms(1,2)] q ne have r: "r' \<noteq> r" by auto
  from inv_entry [OF assms(1) q] obtain n c' where *:
    "r' < next_queue s" "songs (heap s r') \<noteq> []"
    "on_error (players s r') = [\<lparr>h_guild = g', h_iid = n, h_queue = r'\<rparr>]"
    "on_idle (players s r') = [\<lparr>h_guild = g', h_iid = n, h_queue = r'\<rparr>]"
    "connection (heap s r') = Some c'" "c' < next_conn s"
    "\<not> destroyed (conns s c')" "vc_guild (conns s c') = g'" by blast
  from inv_conn_inj [OF assms(1,2) q assms(3)] ne *(5) have "c' \<noteq> c" by auto
  with * r show ?case by auto
next
  case (4 r' sg')
  then have ne: "r' \<noteq> r" and "r' < next_queue s" "playing (players s r') = Some sg'"
    by (auto split: if_splits)
  from inv_playing [OF assms(1) this(2,3)] obtain g' where
    g': "queues s g' = Some r'" and **: "songs (heap s r') \<noteq> []" "sg' = hd (songs (heap s r'))"
    by blast
  from g' assms(2) ne have "g' \<noteq> g" by auto
  with g' ** ne show ?case by auto
next
  case (5 c')
  then have ne: "c' \<noteq> c" and "c' < next_conn s" "\<not> destroyed (conns s c')"
    by (auto split: if_splits)
  from inv_live [OF assms(1) this(2,3)] obtain r' where
    r': "queues s (vc_guild (conns s c')) = Some r'" "connection (heap s r') = Some c'" by blast
  from r' assms(2,3) ne have "vc_guild (conns s c') \<noteq> g" by auto
  moreover from this inv_inj [OF assms(1,2), of "vc_guild (conns s c')"] r'(1)
  have "r' \<noteq> r" by auto
  ultimately show ?case using r' ne by auto
qed

lemma inv_emit_signal:
  assumes "inv s" "p < next_player s" "playing (players s p) = Some sg"
  shows "inv (emit_signal w p k s)"
proof -
  from assms have p: "p < next_queue s" by (simp add: inv_players)
  from inv_playing [OF assms(1) p assms(3)] obtain g where
    g: "queues s g = Some p" and sg: "songs (heap s p) \<noteq> []" by blast
  from inv_entry [OF assms(1) g] obtain n c where h:
    "on_error (players s p) = [\<lparr>h_guild = g, h_iid = n, h_queue = p\<rparr>]"
    "on_idle (players s p) = [\<lparr>h_guild = g, h_iid = n, h_queue = p\<rparr>]"
    "connection (heap s p) = Some c" by blast
  show ?thesis
  proof (cases k)
    case PlayerError
    from inv_cong [OF signal_error [OF h(1,3)]] inv_teardown [OF assms(1) g h(3)]
    show ?thesis unfolding PlayerError by simp
  next
    case Idle
    from sg obtain x xs where xs: "songs (heap s p) = x # xs" by (cases "songs (heap s p)") auto
    show ?thesis
    proof (cases xs)
      case Nil
      from inv_cong [OF signal_drain [OF h(2) xs [unfolded Nil] h(3)]]
        inv_teardown [OF assms(1) g h(3)]
      show ?thesis unfolding Idle by simp
    next
      case (Cons y ys)
      from inv_cong [OF signal_advance [OF inv_player [OF assms(1) p] h(2) xs [unfolded Cons] h(3)]]
        inv_advance [OF assms(1) g xs [unfolded Cons] h(3)]
      show ?thesis unfolding Idle by simp
    qed
  qed
qed

lemma inv_fire:
  assumes "inv s" "fire e s = Some t"
  shows "inv t"
proof (cases e)
  case (Execute w i)
  with assms inv_execute [OF assms(1), of w i] show ?thesis by auto
next
  case (Signal w p k)
  with assms inv_emit_signal [OF assms(1), of p _ w k] show ?thesis
    by (auto split: if_splits)
qed

lemma inv_run:
  assumes "inv s" "run evs s = Some t"
  shows "inv t"
  using assms
proof (induction evs arbitrary: s)
  case Nil
  then show ?case by simp
next
  case (Cons e evs)
  then show ?case by (auto split: option.splits dest: inv_fire)
qed

lemma run_snoc:
  "run (evs @ [e]) s = (case run evs s of None \<Rightarrow> None | Some t \<Rightarrow> fire e t)"
  by (induction evs arbitrary: s) (auto split: option.splits)

subsection \<open>Songs played and songs resolved\<close>

lemma played_append [simp]: "played g (xs @ ys) = played g xs @ played g ys"
  by (induction g xs rule: played.induct) auto

lemma joins_append [simp]: "joins (xs @ ys) = joins xs + joins ys"
  by (induction xs rule: joins.induct) auto

lemma completed_append [simp]: "completed g (xs @ ys) = completed g xs @ completed g ys"
  by (induction g xs rule: completed.induct) (auto split: option.splits)

lemma store_eqD:
  assumes "store t = store u"
  shows "queues t = queues u" "heap t = heap u" "next_queue t = next_queue u"
    "players t = players u" "next_player t = next_player u" "conns t = conns u"
    "next_conn t = next_conn u"
  using assms store_simps by metis+























subsection \<open>The two phases of a call\<close>
















lemmas step_defs = execute_def enqueue_def initialize_queue_def push_def join_def
  register_handlers_def play_or_added_def playSong_def playSong_catch_def emit_def
  editReply_caught_def followUp_caught_def rejected_later_def editReply_returned_def reply_returned_def
  emit_signal_def on_player_idle_def on_player_error_def destroy_def Let_def

lemmas scenario_defs = all_well_def lounge_def studio_def request_A_def request_B_def
  request_dm_def song_A_def song_B_def init_def

section \<open>The claims\<close>

subsection \<open>C10: a refused command touches nothing\<close>

text \<open>
  C10. A call of the play command made outside a guild, or naming a channel that is not a
  guild voice channel, or naming a voice channel in which the bot may not connect or may not
  speak, answers with the rejection that belongs to the failed check and does nothing else:
  the map and the object stores are as before, \<open>joinVoiceChannel\<close> is not called, and the
  answer and the two log lines do not depend on the state.
\<close>

theorem rejection_before_queue_state:
  assumes "\<not> accepted i"
  shows "store (snd (execute w i s)) = store s \<and>
         joins (trace (snd (execute w i s))) = joins (trace s) \<and>
         fst (execute w i s) = (if notify_ok w then Resolved else Rejected) \<and>
         trace (snd (execute w i s)) =
           trace s @
           [Log LInfo ''Executing command'',
            Log LWarn
              (case guild i of
                 None \<Rightarrow> ''Play command used outside a guild''
               | Some g \<Rightarrow>
                   (case channel_opt i of
                      None \<Rightarrow> ''Invalid or non-voice channel selected''
                    | Some vc \<Rightarrow>
                        if ch_type vc = GuildVoice then ''Bot lacks voice channel permissions''
                        else ''Invalid or non-voice channel selected'')),
            Reply (iid i)
              (case guild i of
                 None \<Rightarrow> OnlyInServer
               | Some g \<Rightarrow>
                   (case channel_opt i of
                      None \<Rightarrow> SelectValidVoice
                    | Some vc \<Rightarrow>
                        if ch_type vc = GuildVoice then LackPermissions else SelectValidVoice))
              (notify_ok w)]"
proof (cases "guild i")
  case None
  then show ?thesis by (simp add: execute_def reply_returned_def emit_def store_def Let_def)
next
  case g: (Some g)
  show ?thesis
  proof (cases "channel_opt i")
    case None
    with g show ?thesis by (simp add: execute_def reply_returned_def emit_def store_def Let_def)
  next
    case (Some vc)
    with g assms show ?thesis
      by (auto simp: execute_def accepted_def reply_returned_def emit_def store_def Let_def)
  qed
qed

theorem rejection_before_queue_state_witness:
  "store (snd (execute all_well request_dm after_A)) = store after_A \<and>
   trace (snd (execute all_well request_dm after_A)) =
     trace after_A @ [Log LInfo ''Executing command'',
                      Log LWarn ''Play command used outside a guild'',
                      Reply 3 OnlyInServer True]"
proof -
  have "\<not> accepted request_dm" by (simp add: accepted_def request_dm_def)
  from rejection_before_queue_state [OF this, of all_well after_A] show ?thesis
    by (simp add: request_dm_def all_well_def)
qed

lemma reachable_inv: "run evs init = Some s \<Longrightarrow> inv s"
  using inv_run [OF inv_init] .

subsection \<open>C5: a track that does not resolve changes nothing\<close>

text \<open>
  C5. When \<open>ytdl.validateURL\<close> refuses the query or \<open>ytdl.getInfo\<close> rejects, the command
  answers with the failure message and changes neither the map nor any queue, player or
  connection; in particular a guild without a queue still has none. The invalid query is
  answered with ``provide a valid YouTube URL'', the failed lookup with ``failed to play the
  song''.
\<close>

theorem resolution_failure_no_mutation:
  assumes "\<not> validateURL w (query i) \<or> getInfo w (query i) = None"
  shows "store (snd (execute w i s)) = store s \<and>
         (queues s g = None \<longrightarrow> queues (snd (execute w i s)) g = None) \<and>
         (accepted i \<and> defer_ok w \<and> \<not> validateURL w (query i) \<longrightarrow>
            fst (execute w i s) = (if notify_ok w then Resolved else Rejected) \<and>
            trace (snd (execute w i s)) =
              trace s @
              [Log LInfo ''Executing command'', Log LInfo ''Voice channel selected'',
               DeferReply (iid i) True, Log LWarn ''Invalid YouTube URL provided'',
               EditReply (iid i) InvalidUrl (notify_ok w)]) \<and>
         (accepted i \<and> defer_ok w \<and> validateURL w (query i) \<longrightarrow>
            fst (execute w i s) = Resolved \<and>
            trace (snd (execute w i s)) =
              trace s @
              [Log LInfo ''Executing command'', Log LInfo ''Voice channel selected'',
               DeferReply (iid i) True, Log LError ''Error in play command'',
               EditReply (iid i) FailedTryAgain (notify_ok w)] @
              (if notify_ok w then [] else [Log LError ''Failed to edit reply'']))"
proof -
  from assms have un: "resolved w i = None" by (auto simp: resolved_def)
  note st = execute_unresolved [OF un, of s]
  have 1: "queues s g = None \<longrightarrow> queues (snd (execute w i s)) g = None"
    using store_eqD(1) [OF st] by simp
  have 2: "fst (execute w i s) = (if notify_ok w then Resolved else Rejected) \<and>
            trace (snd (execute w i s)) =
              trace s @
              [Log LInfo ''Executing command'', Log LInfo ''Voice channel selected'',
               DeferReply (iid i) True, Log LWarn ''Invalid YouTube URL provided'',
               EditReply (iid i) InvalidUrl (notify_ok w)]"
    if "accepted i" "defer_ok w" "\<not> validateURL w (query i)"
    using that
    by (auto simp: accepted_def execute_def editReply_returned_def emit_def Let_def
        split: option.splits)
  have 3: "fst (execute w i s) = Resolved \<and>
            trace (snd (execute w i s)) =
              trace s @
              [Log LInfo ''Executing command'', Log LInfo ''Voice channel selected'',
               DeferReply (iid i) True, Log LError ''Error in play command'',
               EditReply (iid i) FailedTryAgain (notify_ok w)] @
              (if notify_ok w then [] else [Log LError ''Failed to edit reply''])"
    if "accepted i" "defer_ok w" "validateURL w (query i)"
  proof -
    from that(3) assms have "getInfo w (query i) = None" by simp
    with that show ?thesis
      by (auto simp: accepted_def execute_def editReply_caught_def rejected_later_def emit_def Let_def
          split: option.splits)
  qed
  from st 1 2 3 show ?thesis by blast
qed

theorem resolution_failure_no_mutation_witness:
  "getInfo (all_well\<lparr>getInfo := (\<lambda>_. None)\<rparr>) (query request_B) = None \<and>
   store (snd (execute (all_well\<lparr>getInfo := (\<lambda>_. None)\<rparr>) request_B after_A)) = store after_A \<and>
   queues (snd (execute (all_well\<lparr>getInfo := (\<lambda>_. None)\<rparr>) request_B init)) ''G'' = None"
proof -
  let ?w = "all_well\<lparr>getInfo := (\<lambda>_. None)\<rparr>"
  have h: "\<not> validateURL ?w (query request_B) \<or> getInfo ?w (query request_B) = None"
    by simp
  have q: "queues init ''G'' = None" by (simp add: init_def)
  from resolution_failure_no_mutation [OF h, of after_A]
    resolution_failure_no_mutation [OF h, of init "''G''"] q
  show ?thesis by simp
qed

subsection \<open>C2: the connection handle and the songs\<close>

text \<open>
  C2. In every state reached from the initial one by calls of the command and signals of
  players, and for every guild: the guild's queue has a connection handle exactly when it
  has songs or its player is still playing; that handle is a live connection of the guild;
  no live connection of the guild exists beside the handle of a queue with songs (a
  connection does not outlive the queue content); and a player that is playing belongs to
  a queue in the map whose connection is live.
\<close>

theorem connection_iff_songs:
  assumes "run evs init = Some s"
  shows "(handle g s \<noteq> None \<longleftrightarrow> pending g s \<noteq> [] \<or> now_playing g s \<noteq> None) \<and>
         (\<forall>c. handle g s = Some c \<longrightarrow>
            c < next_conn s \<and> \<not> destroyed (conns s c) \<and> vc_guild (conns s c) = g) \<and>
         (\<forall>c < next_conn s. vc_guild (conns s c) = g \<and> \<not> destroyed (conns s c) \<longrightarrow>
            handle g s = Some c \<and> pending g s \<noteq> []) \<and>
         (\<forall>p < next_player s. playing (players s p) \<noteq> None \<longrightarrow>
            (\<exists>g' r c. queues s g' = Some r \<and> player (heap s r) = p \<and>
               connection (heap s r) = Some c \<and> \<not> destroyed (conns s c)))"
proof -
  note i = reachable_inv [OF assms]
  have 1: "handle g s \<noteq> None \<longleftrightarrow> pending g s \<noteq> [] \<or> now_playing g s \<noteq> None"
  proof (cases "queues s g")
    case None
    then show ?thesis by (simp add: handle_def pending_def now_playing_def)
  next
    case (Some r)
    from inv_entry [OF i Some] obtain c where
      "songs (heap s r) \<noteq> []" "connection (heap s r) = Some c" by blast
    with Some show ?thesis by (simp add: handle_def pending_def)
  qed
  have 2: "c < next_conn s \<and> \<not> destroyed (conns s c) \<and> vc_guild (conns s c) = g"
    if "handle g s = Some c" for c
  proof -
    from that obtain r where r: "queues s g = Some r" "connection (heap s r) = Some c"
      by (auto simp: handle_def split: option.splits)
    from inv_entry [OF i r(1)] r(2) show ?thesis by auto
  qed
  have 3: "handle g s = Some c \<and> pending g s \<noteq> []"
    if "c < next_conn s" "vc_guild (conns s c) = g \<and> \<not> destroyed (conns s c)" for c
  proof -
    from inv_live [OF i that(1)] that(2) obtain r where
      r: "queues s g = Some r" "connection (heap s r) = Some c" by auto
    from inv_entry [OF i r(1)] have "songs (heap s r) \<noteq> []" by blast
    with r show ?thesis by (simp add: handle_def pending_def)
  qed
  have 4: "\<exists>g' r c. queues s g' = Some r \<and> player (heap s r) = p \<and>
               connection (heap s r) = Some c \<and> \<not> destroyed (conns s c)"
    if "p < next_player s" "playing (players s p) \<noteq> None" for p
  proof -
    from that obtain sg where sg: "playing (players s p) = Some sg" by auto
    from that(1) have p: "p < next_queue s" by (simp add: inv_players [OF i])
    from inv_playing(1) [OF i p sg] obtain g' where g': "queues s g' = Some p" by blast
    from inv_entry [OF i g'] obtain c where
      "connection (heap s p) = Some c" "\<not> destroyed (conns s c)" by blast
    with g' inv_player [OF i p] show ?thesis by blast
  qed
  from 1 2 3 4 show ?thesis by blast
qed

lemma run_A: "run [Execute all_well request_A] init = Some after_A"
  by (simp add: after_A_def)

lemma after_A_eval:
  "queues after_A ''G'' = Some 0" "heap after_A 0 = \<lparr>songs = [song_A], player = 0, connection = Some 0\<rparr>"
  "next_conn after_A = 1" "next_queue after_A = 1" "next_player after_A = 1"
  "conns after_A 0 = \<lparr>vc_guild = ''G'', vc_channel = ''V1'', destroyed = False, subscription = Some 0\<rparr>"
  "players after_A 0 = \<lparr>on_error = [\<lparr>h_guild = ''G'', h_iid = 1, h_queue = 0\<rparr>],
      on_idle = [\<lparr>h_guild = ''G'', h_iid = 1, h_queue = 0\<rparr>], playing = Some song_A\<rparr>"
  by (simp_all add: after_A_def scenario_defs step_defs)

theorem connection_iff_songs_witness:
  "run [Execute all_well request_A] init = Some after_A \<and>
   handle ''G'' after_A = Some 0 \<and> pending ''G'' after_A = [song_A] \<and>
   \<not> destroyed (conns after_A 0)"
proof -
  from connection_iff_songs [OF run_A, of "''G''"]
  have "\<forall>c. handle ''G'' after_A = Some c \<longrightarrow> \<not> destroyed (conns after_A c)" by blast
  moreover have "handle ''G'' after_A = Some 0" "pending ''G'' after_A = [song_A]"
    by (simp_all add: handle_def pending_def after_A_eval)
  ultimately show ?thesis using run_A by simp
qed

lemma joins_execute_unresolved:
  assumes "resolved w i = None"
  shows "joins (trace (snd (execute w i s))) = joins (trace s)"
proof (cases "guild i")
  case None
  then show ?thesis by (simp add: execute_def reply_returned_def emit_def Let_def)
next
  case g: (Some g)
  show ?thesis
  proof (cases "channel_opt i")
    case None
    with g show ?thesis by (simp add: execute_def reply_returned_def emit_def Let_def)
  next
    case (Some vc)
    show ?thesis
    proof (cases "accepted i \<and> defer_ok w \<and> validateURL w (query i)")
      case True
      with assms have "getInfo w (query i) = None" by (simp add: resolved_def)
      with True g Some show ?thesis
        by (simp add: execute_def accepted_def editReply_caught_def rejected_later_def emit_def Let_def)
    next
      case False
      with g Some show ?thesis
        by (auto simp: execute_def accepted_def reply_returned_def editReply_returned_def
            emit_def Let_def)
    qed
  qed
qed

lemma joins_enqueue_existing:
  "joins (trace (editReply_caught w n m (push r sg (emit [Log l1 m1, Log l2 m2, DeferReply k b, Log l3 m3] s))))
     = joins (trace s)"
  by (simp add: editReply_caught_def rejected_later_def push_def emit_def)

lemma joins_emit_signal:
  assumes "player (heap s r) = r" "on_idle (players s r) = [\<lparr>h_guild = g, h_iid = n, h_queue = r\<rparr>]"
    "on_error (players s r) = [\<lparr>h_guild = g, h_iid = n, h_queue = r\<rparr>]"
  shows "joins (trace (emit_signal w r k s)) = joins (trace s)"
  using assms
  by (cases k; cases "songs (heap s r)"; cases "tl (songs (heap s r))";
      cases "connection (heap s r)")
    (simp_all add: emit_signal_def on_player_idle_def on_player_error_def playSong_def
      playSong_catch_def Let_def destroy_def followUp_caught_def rejected_later_def editReply_caught_def emit_def)

lemma handlers_emit_signal:
  assumes "player (heap s r) = r" "on_idle (players s r) = [\<lparr>h_guild = g, h_iid = n, h_queue = r\<rparr>]"
    "on_error (players s r) = [\<lparr>h_guild = g, h_iid = n, h_queue = r\<rparr>]"
  shows "on_error (players (emit_signal w r k s) p) = on_error (players s p) \<and>
         on_idle (players (emit_signal w r k s) p) = on_idle (players s p) \<and>
         next_conn (emit_signal w r k s) = next_conn s"
  using assms
  by (cases k; cases "songs (heap s r)"; cases "tl (songs (heap s r))";
      cases "connection (heap s r)")
    (simp_all add: emit_signal_def on_player_idle_def on_player_error_def playSong_def
      playSong_catch_def Let_def destroy_def followUp_caught_def rejected_later_def editReply_caught_def emit_def)

lemma joins_enqueue_joined:
  assumes "queues s g = None" "join_ok w"
  shows "joins (trace (snd (enqueue w i g vc sg s))) = Suc (joins (trace s))"
  using assms
  by (simp add: enqueue_def initialize_queue_def push_def emit_def join_def
      register_handlers_def play_or_added_def playSong_def playSong_catch_def
      followUp_caught_def rejected_later_def editReply_caught_def Let_def)

subsection \<open>C7: one connection and one registration per queue\<close>

text \<open>
  C7. In every reachable state and for every guild: the player of the guild's queue carries
  exactly one error handler and exactly one idle handler, and the guild has exactly one live
  connection, the one of its queue. A call that resolves its song for a guild without a
  queue, and whose join succeeds, makes exactly one call of \<open>joinVoiceChannel\<close>, creates
  one connection and registers one handler of each kind on the new player, leaving the
  handlers of all other players alone. A call for a guild that has a queue creates no
  connection, does not call \<open>joinVoiceChannel\<close> and registers nothing; nor does any signal.
\<close>

theorem one_connection_one_subscription:
  assumes "run evs init = Some s"
  shows "(\<forall>r. queues s g = Some r \<longrightarrow>
            length (on_error (players s (player (heap s r)))) = 1 \<and>
            length (on_idle (players s (player (heap s r)))) = 1 \<and>
            (\<forall>c < next_conn s.
               (vc_guild (conns s c) = g \<and> \<not> destroyed (conns s c)) =
               (connection (heap s r) = Some c))) \<and>
         (\<forall>w i sg. queues s g = None \<and> guild i = Some g \<and> resolved w i = Some sg \<and> join_ok w \<longrightarrow>
            next_conn (snd (execute w i s)) = Suc (next_conn s) \<and>
            joins (trace (snd (execute w i s))) = Suc (joins (trace s)) \<and>
            queues (snd (execute w i s)) g = Some (next_queue s) \<and>
            player (heap (snd (execute w i s)) (next_queue s)) = next_player s \<and>
            connection (heap (snd (execute w i s)) (next_queue s)) = Some (next_conn s) \<and>
            on_error (players (snd (execute w i s)) (next_player s)) =
              [\<lparr>h_guild = g, h_iid = iid i, h_queue = next_queue s\<rparr>] \<and>
            on_idle (players (snd (execute w i s)) (next_player s)) =
              [\<lparr>h_guild = g, h_iid = iid i, h_queue = next_queue s\<rparr>] \<and>
            (\<forall>p. p \<noteq> next_player s \<longrightarrow>
               players (snd (execute w i s)) p = players s p)) \<and>
         (\<forall>w i. queues s g \<noteq> None \<and> guild i = Some g \<longrightarrow>
            next_conn (snd (execute w i s)) = next_conn s \<and>
            conns (snd (execute w i s)) = conns s \<and>
            joins (trace (snd (execute w i s))) = joins (trace s) \<and>
            players (snd (execute w i s)) = players s) \<and>
         (\<forall>w p k s'. fire (Signal w p k) s = Some s' \<longrightarrow>
            next_conn s' = next_conn s \<and> joins (trace s') = joins (trace s) \<and>
            (\<forall>q. on_error (players s' q) = on_error (players s q) \<and>
                 on_idle (players s' q) = on_idle (players s q)))"
proof -
  note i = reachable_inv [OF assms]
  have 1: "length (on_error (players s (player (heap s r)))) = 1 \<and>
            length (on_idle (players s (player (heap s r)))) = 1 \<and>
            (\<forall>c < next_conn s.
               (vc_guild (conns s c) = g \<and> \<not> destroyed (conns s c)) =
               (connection (heap s r) = Some c))"
    if r: "queues s g = Some r" for r
  proof -
    from inv_entry [OF i r] obtain n c where *: "r < next_queue s"
      "on_error (players s r) = [\<lparr>h_guild = g, h_iid = n, h_queue = r\<rparr>]"
      "on_idle (players s r) = [\<lparr>h_guild = g, h_iid = n, h_queue = r\<rparr>]"
      "connection (heap s r) = Some c" "\<not> destroyed (conns s c)" "vc_guild (conns s c) = g"
      by blast
    have "(vc_guild (conns s c') = g \<and> \<not> destroyed (conns s c')) =
               (connection (heap s r) = Some c')" if "c' < next_conn s" for c'
    proof
      assume a: "vc_guild (conns s c') = g \<and> \<not> destroyed (conns s c')"
      with inv_live [OF i that] r show "connection (heap s r) = Some c'" by auto
    next
      assume "connection (heap s r) = Some c'"
      with * show "vc_guild (conns s c') = g \<and> \<not> destroyed (conns s c')" by simp
    qed
    with * inv_player [OF i *(1)] show ?thesis by simp
  qed
  have 2: "next_conn (snd (execute w i s)) = Suc (next_conn s) \<and>
            joins (trace (snd (execute w i s))) = Suc (joins (trace s)) \<and>
            queues (snd (execute w i s)) g = Some (next_queue s) \<and>
            player (heap (snd (execute w i s)) (next_queue s)) = next_player s \<and>
            connection (heap (snd (execute w i s)) (next_queue s)) = Some (next_conn s) \<and>
            on_error (players (snd (execute w i s)) (next_player s)) =
              [\<lparr>h_guild = g, h_iid = iid i, h_queue = next_queue s\<rparr>] \<and>
            on_idle (players (snd (execute w i s)) (next_player s)) =
              [\<lparr>h_guild = g, h_iid = iid i, h_queue = next_queue s\<rparr>] \<and>
            (\<forall>p. p \<noteq> next_player s \<longrightarrow>
               players (snd (execute w i s)) p = players s p)"
    if a: "queues s g = None" "guild i = Some g" "resolved w i = Some sg" "join_ok w"
    for w i sg
  proof -
    let ?s0 = "emit [Log LInfo ''Executing command'', Log LInfo ''Voice channel selected'',
                DeferReply (iid i) True, Log LInfo ''Fetched song info''] s"
    from execute_resolved [OF a(3), of s] a(2) obtain vc where
      e: "execute w i s = enqueue w i g vc sg ?s0" by auto
    from a(1) have n: "queues ?s0 g = None" by (simp add: emit_def)
    note st = store_eqD [OF enqueue_new_joined [OF n a(4), of i vc sg], folded e]
    from joins_enqueue_joined [OF n a(4), of i vc sg, folded e]
    have "joins (trace (snd (execute w i s))) = Suc (joins (trace s))"
      by (simp add: emit_def)
    then show ?thesis unfolding st by (simp add: emit_def)
  qed
  have 3: "next_conn (snd (execute w i s)) = next_conn s \<and>
            conns (snd (execute w i s)) = conns s \<and>
            joins (trace (snd (execute w i s))) = joins (trace s) \<and>
            players (snd (execute w i s)) = players s"
    if a: "queues s g \<noteq> None" "guild i = Some g" for w i
  proof (cases "resolved w i")
    case None
    from store_eqD [OF execute_unresolved [OF None, of s]] joins_execute_unresolved [OF None, of s]
    show ?thesis by simp
  next
    case (Some sg)
    let ?s0 = "emit [Log LInfo ''Executing command'', Log LInfo ''Voice channel selected'',
                DeferReply (iid i) True, Log LInfo ''Fetched song info''] s"
    from execute_resolved [OF Some, of s] a(2) obtain vc where
      e: "execute w i s = enqueue w i g vc sg ?s0" by auto
    from a(1) obtain r where r: "queues s g = Some r" by auto
    from inv_entry [OF i r] obtain c where
      c: "connection (heap s r) = Some c" "songs (heap s r) \<noteq> []" by blast
    have "enqueue w i g vc sg ?s0 =
           (Resolved, editReply_caught w (iid i) (AddedToQueue (title sg)) (push r sg ?s0))"
      by (rule enqueue_existing [of _ _ _ c]) (use r c in \<open>simp_all add: emit_def\<close>)
    with e have e': "snd (execute w i s) =
        editReply_caught w (iid i) (AddedToQueue (title sg)) (push r sg ?s0)" by simp
    show ?thesis
      unfolding e' by (simp add: editReply_caught_def rejected_later_def push_def emit_def)
  qed
  have 4: "next_conn s' = next_conn s \<and> joins (trace s') = joins (trace s) \<and>
            (\<forall>q. on_error (players s' q) = on_error (players s q) \<and>
                 on_idle (players s' q) = on_idle (players s q))"
    if a: "fire (Signal w p k) s = Some s'" for w p k s'
  proof -
    from a obtain sg where p: "p < next_player s" "playing (players s p) = Some sg"
      and s': "s' = emit_signal w p k s" by (auto split: if_splits)
    from p have pq: "p < next_queue s" by (simp add: inv_players [OF i])
    from inv_playing(1) [OF i pq p(2)] obtain g' where g': "queues s g' = Some p" by blast
    from inv_entry [OF i g'] obtain n where h:
      "on_error (players s p) = [\<lparr>h_guild = g', h_iid = n, h_queue = p\<rparr>]"
      "on_idle (players s p) = [\<lparr>h_guild = g', h_iid = n, h_queue = p\<rparr>]" by blast
    from joins_emit_signal [OF inv_player [OF i pq] h(2,1), of w k]
      handlers_emit_signal [OF inv_player [OF i pq] h(2,1), of w k]
    show ?thesis unfolding s' by simp
  qed
  from 1 2 3 4 show ?thesis by blast
qed

theorem one_connection_one_subscription_witness:
  "run [] init = Some init \<and> queues init ''G'' = None \<and>
   guild request_A = Some ''G'' \<and> resolved all_well request_A = Some song_A \<and>
   join_ok all_well \<and>
   next_conn after_A = Suc (next_conn init) \<and>
   joins (trace after_A) = Suc (joins (trace init)) \<and>
   run [Execute all_well request_A] init = Some after_A \<and>
   queues after_A ''G'' = Some 0 \<and> guild request_B = Some ''G'' \<and>
   length (on_error (players after_A (player (heap after_A 0)))) = 1 \<and>
   length (on_idle (players after_A (player (heap after_A 0)))) = 1 \<and>
   next_conn after_AB = next_conn after_A \<and>
   joins (trace after_AB) = joins (trace after_A) \<and>
   players after_AB = players after_A"
proof -
  have i: "run [] init = Some init" by simp
  have a: "queues init ''G'' = None \<and> guild request_A = Some ''G'' \<and>
    resolved all_well request_A = Some song_A \<and> join_ok all_well"
    by (simp add: resolved_def accepted_def scenario_defs)
  from one_connection_one_subscription [OF i, of "''G''", THEN conjunct2, THEN conjunct1,
      rule_format, OF a]
  have 1: "next_conn after_A = Suc (next_conn init)"
    "joins (trace after_A) = Suc (joins (trace init))"
    unfolding after_A_def by simp_all
  have g: "queues after_A ''G'' = Some 0" "guild request_B = Some ''G''"
    by (simp_all add: after_A_eval request_B_def)
  from one_connection_one_subscription [OF run_A, of "''G''"] g run_A
  have 2: "run [Execute all_well request_A] init = Some after_A \<and>
   queues after_A ''G'' = Some 0 \<and> guild request_B = Some ''G'' \<and>
   length (on_error (players after_A (player (heap after_A 0)))) = 1 \<and>
   length (on_idle (players after_A (player (heap after_A 0)))) = 1 \<and>
   next_conn after_AB = next_conn after_A \<and>
   joins (trace after_AB) = joins (trace after_A) \<and>
   players after_AB = players after_A"
    unfolding after_AB_def by fastforce
  from i a 1 2 show ?thesis by simp
qed

lemma trace_signal_error:
  assumes "on_error (players s r) = [\<lparr>h_guild = g, h_iid = n, h_queue = r\<rparr>]"
    "connection (heap s r) = Some c"
  shows "trace (emit_signal w r PlayerError s) =
           trace s @
           [Log LError ''Audio player error'', FollowUp n AudioError (notify_ok w), Destroy c] @
           (if notify_ok w then [] else [Log LError ''Failed to send follow-up''])"
  using assms
  by (simp add: emit_signal_def on_player_error_def Let_def destroy_def emit_def
      followUp_caught_def rejected_later_def)

subsection \<open>C3: a player error is a hard reset\<close>

text \<open>
  C3. In a reachable state in which the guild has a queue whose player is playing, the error
  signal of that player is handled as follows: the failure is reported by a follow-up, the
  songs of the queue object are cleared, its connection is destroyed, and the guild's entry
  is removed from the map, the entries of other guilds staying as they are; the follow-up is
  not waited for, and when it is not delivered its rejection is logged after the teardown. A next call for
  the guild that resolves and joins then creates a queue object at a new address, holding
  only the new song, with a new player and a new, live connection.
\<close>

theorem player_error_hard_reset:
  assumes "run evs init = Some s" and "queues s g = Some r" and "now_playing g s \<noteq> None"
  shows "\<exists>s' c n. fire (Signal w (player (heap s r)) PlayerError) s = Some s' \<and>
           connection (heap s r) = Some c \<and>
           trace s' =
             trace s @
             [Log LError ''Audio player error'', FollowUp n AudioError (notify_ok w),
              Destroy c] @
             (if notify_ok w then [] else [Log LError ''Failed to send follow-up'']) \<and>
           songs (heap s' r) = [] \<and> destroyed (conns s' c) \<and> queues s' g = None \<and>
           (\<forall>g'. g' \<noteq> g \<longrightarrow> queues s' g' = queues s g') \<and>
           (\<forall>w' i sg. guild i = Some g \<and> resolved w' i = Some sg \<and> join_ok w' \<longrightarrow>
              r < next_queue s' \<and> c < next_conn s' \<and> player (heap s r) < next_player s' \<and>
              queues (snd (execute w' i s')) g = Some (next_queue s') \<and>
              songs (heap (snd (execute w' i s')) (next_queue s')) = [sg] \<and>
              player (heap (snd (execute w' i s')) (next_queue s')) = next_player s' \<and>
              connection (heap (snd (execute w' i s')) (next_queue s')) = Some (next_conn s') \<and>
              \<not> destroyed (conns (snd (execute w' i s')) (next_conn s')))"
proof -
  note i = reachable_inv [OF assms(1)]
  from inv_entry [OF i assms(2)] obtain n c where h: "r < next_queue s"
    "on_error (players s r) = [\<lparr>h_guild = g, h_iid = n, h_queue = r\<rparr>]"
    "connection (heap s r) = Some c" "c < next_conn s" by blast
  note pr = inv_player [OF i h(1)]
  let ?s' = "emit_signal w r PlayerError s"
  from assms(2,3) h(1) have f: "fire (Signal w (player (heap s r)) PlayerError) s = Some ?s'"
    by (simp add: now_playing_def pr inv_players [OF i])
  note st = store_eqD [OF signal_error [OF h(2,3), of w]]
  have fresh: "r < next_queue ?s' \<and> c < next_conn ?s' \<and> player (heap s r) < next_player ?s' \<and>
              queues (snd (execute w' i ?s')) g = Some (next_queue ?s') \<and>
              songs (heap (snd (execute w' i ?s')) (next_queue ?s')) = [sg] \<and>
              player (heap (snd (execute w' i ?s')) (next_queue ?s')) = next_player ?s' \<and>
              connection (heap (snd (execute w' i ?s')) (next_queue ?s')) = Some (next_conn ?s') \<and>
              \<not> destroyed (conns (snd (execute w' i ?s')) (next_conn ?s'))"
    if a: "guild i = Some g" "resolved w' i = Some sg" "join_ok w'" for w' i sg
  proof -
    let ?s0 = "emit [Log LInfo ''Executing command'', Log LInfo ''Voice channel selected'',
                DeferReply (iid i) True, Log LInfo ''Fetched song info''] ?s'"
    from execute_resolved [OF a(2), of ?s'] a(1) obtain vc where
      e: "execute w' i ?s' = enqueue w' i g vc sg ?s0" by auto
    have n: "queues ?s0 g = None" by (simp add: emit_def st)
    note st' = store_eqD [OF enqueue_new_joined [OF n a(3), of i vc sg], folded e]
    from h(1,4) pr inv_players [OF i] show ?thesis
      unfolding st' by (simp add: emit_def st)
  qed
  have "songs (heap ?s' r) = []" "destroyed (conns ?s' c)" "queues ?s' g = None"
    "\<forall>g'. g' \<noteq> g \<longrightarrow> queues ?s' g' = queues s g'"
    by (simp_all add: st)
  with f h(3) trace_signal_error [OF h(2,3), of w] fresh show ?thesis
    unfolding pr by blast
qed

lemma after_A_playing: "now_playing ''G'' after_A \<noteq> None"
  by (simp add: now_playing_def after_A_eval)

theorem player_error_hard_reset_witness:
  "run [Execute all_well request_A] init = Some after_A \<and>
   queues after_A ''G'' = Some 0 \<and> now_playing ''G'' after_A = Some song_A \<and>
   fire (Signal all_well 0 PlayerError) after_A = Some (emit_signal all_well 0 PlayerError after_A) \<and>
   songs (heap (emit_signal all_well 0 PlayerError after_A) 0) = [] \<and>
   destroyed (conns (emit_signal all_well 0 PlayerError after_A) 0) \<and>
   queues (emit_signal all_well 0 PlayerError after_A) ''G'' = None \<and>
   queues (snd (execute all_well request_B (emit_signal all_well 0 PlayerError after_A))) ''G''
     = Some 1 \<and>
   connection (heap (snd (execute all_well request_B
      (emit_signal all_well 0 PlayerError after_A))) 1) = Some 1 \<and>
   trace (emit_signal (all_well\<lparr>notify_ok := False\<rparr>) 0 PlayerError after_A) =
     trace after_A @
     [Log LError ''Audio player error'', FollowUp 1 AudioError False, Destroy 0,
      Log LError ''Failed to send follow-up'']"
proof -
  let ?s' = "emit_signal all_well 0 PlayerError after_A"
  have u: "trace (emit_signal (all_well\<lparr>notify_ok := False\<rparr>) 0 PlayerError after_A) =
     trace after_A @
     [Log LError ''Audio player error'', FollowUp 1 AudioError False, Destroy 0,
      Log LError ''Failed to send follow-up'']"
    using trace_signal_error [of after_A 0 "''G''" 1 0 "all_well\<lparr>notify_ok := False\<rparr>"]
    by (simp add: after_A_eval)
  have f: "fire (Signal all_well 0 PlayerError) after_A = Some ?s'"
    by (simp add: after_A_eval)
  have b: "guild request_B = Some ''G'' \<and> resolved all_well request_B = Some song_B \<and>
    join_ok all_well"
    by (simp add: resolved_def accepted_def scenario_defs)
  have n: "next_queue ?s' = 1" "next_conn ?s' = 1"
    using store_eqD [OF signal_error [of after_A 0 "''G''" 1 0 all_well]]
    by (simp_all add: after_A_eval)
  have p: "player (heap after_A 0) = 0" "connection (heap after_A 0) = Some 0"
    "now_playing ''G'' after_A = Some song_A"
    by (simp_all add: after_A_eval now_playing_def)
  from player_error_hard_reset [OF run_A after_A_eval(1) after_A_playing, of all_well]
  obtain s' c n where *: "fire (Signal all_well (player (heap after_A 0)) PlayerError) after_A = Some s'"
    "connection (heap after_A 0) = Some c"
    "songs (heap s' 0) = []" "destroyed (conns s' c)" "queues s' ''G'' = None"
    and **: "\<forall>w' i sg. guild i = Some ''G'' \<and> resolved w' i = Some sg \<and> join_ok w' \<longrightarrow>
              0 < next_queue s' \<and> c < next_conn s' \<and> player (heap after_A 0) < next_player s' \<and>
              queues (snd (execute w' i s')) ''G'' = Some (next_queue s') \<and>
              songs (heap (snd (execute w' i s')) (next_queue s')) = [sg] \<and>
              player (heap (snd (execute w' i s')) (next_queue s')) = next_player s' \<and>
              connection (heap (snd (execute w' i s')) (next_queue s')) = Some (next_conn s') \<and>
              \<not> destroyed (conns (snd (execute w' i s')) (next_conn s'))"
    by (elim exE conjE)
  from *(1) f have s': "s' = ?s'" unfolding p by simp
  from *(2) have c: "c = 0" unfolding p by simp
  from ** [rule_format, OF b] have
    "queues (snd (execute all_well request_B s')) ''G'' = Some (next_queue s')"
    "connection (heap (snd (execute all_well request_B s')) (next_queue s')) = Some (next_conn s')"
    by simp_all
  then have "queues (snd (execute all_well request_B ?s')) ''G'' = Some 1"
    "connection (heap (snd (execute all_well request_B ?s')) 1) = Some 1"
    unfolding s' n by simp_all
  with * f run_A after_A_eval(1) p(3) u show ?thesis
    unfolding s' c by simp
qed

lemma trace_enqueue_failed:
  assumes "queues s g = None" "\<not> join_ok w"
  shows "trace (snd (enqueue w i g vc sg s)) =
           trace s @ [CreateAudioPlayer (next_player s), JoinVoiceChannel g (ch_id vc) False,
                      Log LError ''Failed to join voice channel'',
                      EditReply (iid i) JoinFailed (notify_ok w)]"
    "fst (enqueue w i g vc sg s) = (if notify_ok w then Resolved else Rejected)"
  using assms
  by (simp_all add: enqueue_def initialize_queue_def push_def editReply_returned_def emit_def)

subsection \<open>C4: a failed join rolls the new entry back\<close>

text \<open>
  C4. In a reachable state, a call that has resolved its song calls \<open>joinVoiceChannel\<close>
  only when the guild's queue has no connection handle, which is when the guild has no
  queue. If that call fails, the entry just created is deleted again and the failure is
  answered to the caller: the map, the connections, every queue object and every player that
  existed before the call are as they were, and the guild has no pending song.
\<close>

theorem join_failure_rolls_back:
  assumes "run evs init = Some s" and "guild i = Some g" and "resolved w i = Some sg"
  shows "(handle g s \<noteq> None \<longrightarrow> joins (trace (snd (execute w i s))) = joins (trace s)) \<and>
         (handle g s = None \<and> \<not> join_ok w \<longrightarrow>
            fst (execute w i s) = (if notify_ok w then Resolved else Rejected) \<and>
            (\<exists>vc. channel_opt i = Some vc \<and>
               trace (snd (execute w i s)) =
                 trace s @
                 [Log LInfo ''Executing command'', Log LInfo ''Voice channel selected'',
                  DeferReply (iid i) True, Log LInfo ''Fetched song info'',
                  CreateAudioPlayer (next_player s), JoinVoiceChannel g (ch_id vc) False,
                  Log LError ''Failed to join voice channel'',
                  EditReply (iid i) JoinFailed (notify_ok w)]) \<and>
            queues (snd (execute w i s)) = queues s \<and>
            conns (snd (execute w i s)) = conns s \<and>
            next_conn (snd (execute w i s)) = next_conn s \<and>
            (\<forall>r < next_queue s. heap (snd (execute w i s)) r = heap s r) \<and>
            (\<forall>p < next_player s. players (snd (execute w i s)) p = players s p) \<and>
            pending g (snd (execute w i s)) = [])"
proof -
  note inv = reachable_inv [OF assms(1)]
  let ?s0 = "emit [Log LInfo ''Executing command'', Log LInfo ''Voice channel selected'',
                DeferReply (iid i) True, Log LInfo ''Fetched song info''] s"
  from execute_resolved [OF assms(3), of s] assms(2) obtain vc where
    vc: "channel_opt i = Some vc" and e: "execute w i s = enqueue w i g vc sg ?s0" by auto
  have 1: "joins (trace (snd (execute w i s))) = joins (trace s)" if "handle g s \<noteq> None"
  proof -
    from that obtain r where r: "queues s g = Some r"
      by (auto simp: handle_def split: option.splits)
    from inv_entry [OF inv r] obtain c where
      c: "connection (heap s r) = Some c" "songs (heap s r) \<noteq> []" by blast
    have "enqueue w i g vc sg ?s0 =
           (Resolved, editReply_caught w (iid i) (AddedToQueue (title sg)) (push r sg ?s0))"
      by (rule enqueue_existing [of _ _ _ c]) (use r c in \<open>simp_all add: emit_def\<close>)
    with e show ?thesis
      by (simp add: joins_enqueue_existing)
  qed
  have 2: "fst (execute w i s) = (if notify_ok w then Resolved else Rejected) \<and>
            (\<exists>vc. channel_opt i = Some vc \<and>
               trace (snd (execute w i s)) =
                 trace s @
                 [Log LInfo ''Executing command'', Log LInfo ''Voice channel selected'',
                  DeferReply (iid i) True, Log LInfo ''Fetched song info'',
                  CreateAudioPlayer (next_player s), JoinVoiceChannel g (ch_id vc) False,
                  Log LError ''Failed to join voice channel'',
                  EditReply (iid i) JoinFailed (notify_ok w)]) \<and>
            queues (snd (execute w i s)) = queues s \<and>
            conns (snd (execute w i s)) = conns s \<and>
            next_conn (snd (execute w i s)) = next_conn s \<and>
            (\<forall>r < next_queue s. heap (snd (execute w i s)) r = heap s r) \<and>
            (\<forall>p < next_player s. players (snd (execute w i s)) p = players s p) \<and>
            pending g (snd (execute w i s)) = []"
    if a: "handle g s = None" "\<not> join_ok w"
  proof -
    have q: "queues s g = None"
    proof (cases "queues s g")
      case (Some r)
      from inv_entry [OF inv Some] a(1) Some show ?thesis by (auto simp: handle_def)
    qed simp
    then have n: "queues ?s0 g = None" by (simp add: emit_def)
    note st = store_eqD [OF enqueue_new_failed [OF n a(2), of i vc sg], folded e]
    note tr = trace_enqueue_failed [OF n a(2), of i vc sg, folded e]
    from q vc show ?thesis
      by (simp add: st tr emit_def pending_def)
  qed
  from 1 2 show ?thesis by blast
qed

theorem join_failure_rolls_back_witness:
  "run [] init = Some init \<and> guild request_A = Some ''G'' \<and>
   resolved (all_well\<lparr>join_ok := False\<rparr>) request_A = Some song_A \<and>
   handle ''G'' init = None \<and> \<not> join_ok (all_well\<lparr>join_ok := False\<rparr>) \<and>
   queues (snd (execute (all_well\<lparr>join_ok := False\<rparr>) request_A init)) = queues init \<and>
   next_conn (snd (execute (all_well\<lparr>join_ok := False\<rparr>) request_A init)) = 0 \<and>
   pending ''G'' (snd (execute (all_well\<lparr>join_ok := False\<rparr>) request_A init)) = [] \<and>
   fst (execute (all_well\<lparr>join_ok := False\<rparr>) request_A init) = Resolved"
proof -
  let ?w = "all_well\<lparr>join_ok := False\<rparr>"
  have h: "run [] init = Some init" "guild request_A = Some ''G''"
    "resolved ?w request_A = Some song_A"
    by (simp_all add: resolved_def accepted_def scenario_defs)
  have k: "handle ''G'' init = None \<and> \<not> join_ok ?w" "notify_ok ?w" "next_conn init = 0"
    by (simp_all add: handle_def scenario_defs)
  from join_failure_rolls_back [OF h] k(1)
  have "fst (execute ?w request_A init) = (if notify_ok ?w then Resolved else Rejected)"
    "queues (snd (execute ?w request_A init)) = queues init"
    "next_conn (snd (execute ?w request_A init)) = next_conn init"
    "pending ''G'' (snd (execute ?w request_A init)) = []"
    by blast+
  with h k show ?thesis by simp
qed

lemma trace_playSong:
  assumes "songs (heap s r) = x # xs" "connection (heap s r) = Some c" "stream_ok w"
  shows "trace (playSong w g n r s) =
           trace s @
           [Play g (player (heap s r)) x, Subscribe c (player (heap s r)),
            EditReply n (NowPlaying (title x) (vc_channel (conns s c))) (notify_ok w),
            Log LInfo ''Playing song''] @
           (if notify_ok w then [] else [Log LError ''Failed to edit reply''])"
  using assms by (simp add: playSong_def Let_def emit_def rejected_later_def)

lemma trace_signal_advance:
  assumes "player (heap s r) = r" "on_idle (players s r) = [\<lparr>h_guild = g, h_iid = n, h_queue = r\<rparr>]"
    "songs (heap s r) = x # y # ys" "connection (heap s r) = Some c" "stream_ok w"
  shows "trace (emit_signal w r Idle s) =
           trace s @
           [Play g r y, Subscribe c r,
            EditReply n (NowPlaying (title y) (vc_channel (conns s c))) (notify_ok w),
            Log LInfo ''Playing song''] @
           (if notify_ok w then [] else [Log LError ''Failed to edit reply''])"
  using assms
  by (simp add: emit_signal_def on_player_idle_def playSong_def Let_def emit_def
      rejected_later_def)

lemma trace_enqueue_joined:
  assumes "queues s g = None" "join_ok w" "stream_ok w"
  shows "trace (snd (enqueue w i g vc sg s)) =
           trace s @
           [CreateAudioPlayer (next_player s), JoinVoiceChannel g (ch_id vc) True,
            Log LInfo ''Bot joined voice channel'',
            Play g (next_player s) sg, Subscribe (next_conn s) (next_player s),
            EditReply (iid i) (NowPlaying (title sg) (ch_id vc)) (notify_ok w),
            Log LInfo ''Playing song''] @
           (if notify_ok w then [] else [Log LError ''Failed to edit reply''])"
  using assms
  by (simp add: enqueue_def initialize_queue_def push_def emit_def join_def
      register_handlers_def play_or_added_def playSong_def rejected_later_def Let_def)

subsection \<open>C9: the channel in ``now playing''\<close>

text \<open>
  C9. Whenever \<open>playSong\<close> starts the head song of a queue with a connection, its ``now
  playing'' message carries the title of that song and the channel of the queue's
  connection; the message is not waited for, so \<open>'Playing song'\<close> is logged next, and the
  rejection of an undelivered message after it. In a reachable state: the first call for a guild joins the channel it names
  and reports that channel; a call for a guild that already has a connection, whatever
  channel it names, leaves the queue's connection and all connections as they are and does
  not call \<open>joinVoiceChannel\<close>; and when an idle signal starts the next song, the message
  carries the channel of the existing connection.
\<close>

theorem now_playing_reports_connection_channel:
  assumes "run evs init = Some s"
  shows "(\<forall>g' n r c x xs. songs (heap s r) = x # xs \<and> connection (heap s r) = Some c \<and>
            stream_ok w \<longrightarrow>
            trace (playSong w g' n r s) =
              trace s @
              [Play g' (player (heap s r)) x, Subscribe c (player (heap s r)),
               EditReply n (NowPlaying (title x) (vc_channel (conns s c))) (notify_ok w),
               Log LInfo ''Playing song''] @
              (if notify_ok w then [] else [Log LError ''Failed to edit reply''])) \<and>
         (\<forall>sg vc. queues s g = None \<and> guild i = Some g \<and> channel_opt i = Some vc \<and>
            resolved w i = Some sg \<and> join_ok w \<and> stream_ok w \<longrightarrow>
            handle g (snd (execute w i s)) = Some (next_conn s) \<and>
            vc_channel (conns (snd (execute w i s)) (next_conn s)) = ch_id vc \<and>
            trace (snd (execute w i s)) =
              trace s @
              [Log LInfo ''Executing command'', Log LInfo ''Voice channel selected'',
               DeferReply (iid i) True, Log LInfo ''Fetched song info'',
               CreateAudioPlayer (next_player s), JoinVoiceChannel g (ch_id vc) True,
               Log LInfo ''Bot joined voice channel'',
               Play g (next_player s) sg, Subscribe (next_conn s) (next_player s),
               EditReply (iid i) (NowPlaying (title sg) (ch_id vc)) (notify_ok w),
               Log LInfo ''Playing song''] @
              (if notify_ok w then [] else [Log LError ''Failed to edit reply''])) \<and>
         (\<forall>c. handle g s = Some c \<and> guild i = Some g \<longrightarrow>
            handle g (snd (execute w i s)) = Some c \<and>
            conns (snd (execute w i s)) = conns s \<and>
            joins (trace (snd (execute w i s))) = joins (trace s)) \<and>
         (\<forall>p s' x y ys. fire (Signal w p Idle) s = Some s' \<and> songs (heap s p) = x # y # ys \<and>
            stream_ok w \<longrightarrow>
            (\<exists>g' n c. queues s g' = Some p \<and> handle g' s = Some c \<and> handle g' s' = Some c \<and>
               vc_channel (conns s' c) = vc_channel (conns s c) \<and>
               trace s' =
                 trace s @
                 [Play g' p y, Subscribe c p,
                  EditReply n (NowPlaying (title y) (vc_channel (conns s c))) (notify_ok w),
                  Log LInfo ''Playing song''] @
                 (if notify_ok w then [] else [Log LError ''Failed to edit reply''])))"
proof -
  note inv = reachable_inv [OF assms]
  let ?s0 = "emit [Log LInfo ''Executing command'', Log LInfo ''Voice channel selected'',
                DeferReply (iid i) True, Log LInfo ''Fetched song info''] s"
  have 1: "trace (playSong w g' n r s) =
              trace s @
              [Play g' (player (heap s r)) x, Subscribe c (player (heap s r)),
               EditReply n (NowPlaying (title x) (vc_channel (conns s c))) (notify_ok w),
               Log LInfo ''Playing song''] @
              (if notify_ok w then [] else [Log LError ''Failed to edit reply''])"
    if "songs (heap s r) = x # xs \<and> connection (heap s r) = Some c \<and> stream_ok w"
    for g' n r c x xs
    using that trace_playSong [of s r x xs c w g' n] by blast
  have 2: "handle g (snd (execute w i s)) = Some (next_conn s) \<and>
            vc_channel (conns (snd (execute w i s)) (next_conn s)) = ch_id vc \<and>
            trace (snd (execute w i s)) =
              trace s @
              [Log LInfo ''Executing command'', Log LInfo ''Voice channel selected'',
               DeferReply (iid i) True, Log LInfo ''Fetched song info'',
               CreateAudioPlayer (next_player s), JoinVoiceChannel g (ch_id vc) True,
               Log LInfo ''Bot joined voice channel'',
               Play g (next_player s) sg, Subscribe (next_conn s) (next_player s),
               EditReply (iid i) (NowPlaying (title sg) (ch_id vc)) (notify_ok w),
               Log LInfo ''Playing song''] @
              (if notify_ok w then [] else [Log LError ''Failed to edit reply''])"
    if a: "queues s g = None" "guild i = Some g" "channel_opt i = Some vc"
      "resolved w i = Some sg" "join_ok w" "stream_ok w" for sg vc
  proof -
    from execute_resolved [OF a(4), of s] a(2,3) have
      e: "execute w i s = enqueue w i g vc sg ?s0" by auto
    from a(1) have n: "queues ?s0 g = None" by (simp add: emit_def)
    note st = store_eqD [OF enqueue_new_joined [OF n a(5), of i vc sg], folded e]
    note tr = trace_enqueue_joined [OF n a(5,6), of i vc sg, folded e]
    show ?thesis
      by (simp add: st tr emit_def handle_def)
  qed
  have 3: "handle g (snd (execute w i s)) = Some c \<and>
            conns (snd (execute w i s)) = conns s \<and>
            joins (trace (snd (execute w i s))) = joins (trace s)"
    if a: "handle g s = Some c" "guild i = Some g" for c
  proof (cases "resolved w i")
    case None
    from store_eqD [OF execute_unresolved [OF None, of s]] joins_execute_unresolved [OF None, of s]
      a(1)
    show ?thesis by (simp add: handle_def split: option.splits)
  next
    case (Some sg)
    from execute_resolved [OF Some, of s] a(2) obtain vc where
      e: "execute w i s = enqueue w i g vc sg ?s0" by auto
    from a(1) obtain r where r: "queues s g = Some r" "connection (heap s r) = Some c"
      by (auto simp: handle_def split: option.splits)
    from inv_entry [OF inv r(1)] have ne: "songs (heap s r) \<noteq> []" by blast
    have "enqueue w i g vc sg ?s0 =
           (Resolved, editReply_caught w (iid i) (AddedToQueue (title sg)) (push r sg ?s0))"
      by (rule enqueue_existing [of _ _ _ c]) (use r ne in \<open>simp_all add: emit_def\<close>)
    with e have e': "snd (execute w i s) =
        editReply_caught w (iid i) (AddedToQueue (title sg)) (push r sg ?s0)" by simp
    from r show ?thesis
      unfolding e' by (simp add: editReply_caught_def rejected_later_def push_def emit_def handle_def)
  qed
  have 4: "\<exists>g' n c. queues s g' = Some p \<and> handle g' s = Some c \<and> handle g' s' = Some c \<and>
               vc_channel (conns s' c) = vc_channel (conns s c) \<and>
               trace s' =
                 trace s @
                 [Play g' p y, Subscribe c p,
                  EditReply n (NowPlaying (title y) (vc_channel (conns s c))) (notify_ok w),
                  Log LInfo ''Playing song''] @
                 (if notify_ok w then [] else [Log LError ''Failed to edit reply''])"
    if a: "fire (Signal w p Idle) s = Some s'" "songs (heap s p) = x # y # ys" "stream_ok w"
    for p s' x y ys
  proof -
    from a(1) obtain sg where p: "p < next_player s" "playing (players s p) = Some sg"
      and s': "s' = emit_signal w p Idle s" by (auto split: if_splits)
    from p have pq: "p < next_queue s" by (simp add: inv_players [OF inv])
    from inv_playing(1) [OF inv pq p(2)] obtain g' where g': "queues s g' = Some p" by blast
    from inv_entry [OF inv g'] obtain n c where h:
      "on_idle (players s p) = [\<lparr>h_guild = g', h_iid = n, h_queue = p\<rparr>]"
      "connection (heap s p) = Some c" by blast
    note pl = inv_player [OF inv pq]
    note st = store_eqD [OF signal_advance [OF pl h(1) a(2) h(2), of w], folded s']
    note tr = trace_signal_advance [OF pl h(1) a(2) h(2) a(3), folded s']
    from g' h(2) have "handle g' s = Some c \<and> handle g' s' = Some c \<and>
               vc_channel (conns s' c) = vc_channel (conns s c)"
      by (simp add: handle_def st)
    with g' tr show ?thesis by blast
  qed
  from 1 2 3 4 show ?thesis by blast
qed

lemma after_AB_eval:
  "queues after_AB ''G'' = Some 0"
  "heap after_AB 0 = \<lparr>songs = [song_A, song_B], player = 0, connection = Some 0\<rparr>"
  "next_conn after_AB = 1" "next_queue after_AB = 1" "next_player after_AB = 1"
  "conns after_AB 0 =
     \<lparr>vc_guild = ''G'', vc_channel = ''V1'', destroyed = False, subscription = Some 0\<rparr>"
  "players after_AB 0 =
     \<lparr>on_error = [\<lparr>h_guild = ''G'', h_iid = 1, h_queue = 0\<rparr>],
      on_idle = [\<lparr>h_guild = ''G'', h_iid = 1, h_queue = 0\<rparr>], playing = Some song_A\<rparr>"
  by (simp_all add: after_AB_def after_A_def scenario_defs step_defs)

lemma run_AB: "run [Execute all_well request_A, Execute all_well request_B] init = Some after_AB"
  by (simp add: after_AB_def after_A_def)

lemma fire_A_idle: "fire (Signal all_well 0 Idle) after_AB = Some after_A_idle"
  by (simp add: after_A_idle_def after_AB_eval)

theorem now_playing_reports_connection_channel_witness:
  "run [Execute all_well request_A, Execute all_well request_B] init = Some after_AB \<and>
   fire (Signal all_well 0 Idle) after_AB = Some after_A_idle \<and>
   songs (heap after_AB 0) = [song_A, song_B] \<and> stream_ok all_well \<and>
   channel_opt request_B = Some studio \<and> ch_id studio = ''V2'' \<and>
   handle ''G'' after_A_idle = Some 0 \<and>
   trace after_A_idle =
     trace after_AB @
     [Play ''G'' 0 song_B, Subscribe 0 0, EditReply 1 (NowPlaying ''B'' ''V1'') True,
      Log LInfo ''Playing song''] \<and>
   trace (emit_signal (all_well\<lparr>notify_ok := False\<rparr>) 0 Idle after_AB) =
     trace after_AB @
     [Play ''G'' 0 song_B, Subscribe 0 0, EditReply 1 (NowPlaying ''B'' ''V1'') False,
      Log LInfo ''Playing song'', Log LError ''Failed to edit reply'']"
proof -
  have u: "trace (emit_signal (all_well\<lparr>notify_ok := False\<rparr>) 0 Idle after_AB) =
     trace after_AB @
     [Play ''G'' 0 song_B, Subscribe 0 0, EditReply 1 (NowPlaying ''B'' ''V1'') False,
      Log LInfo ''Playing song'', Log LError ''Failed to edit reply'']"
    using trace_signal_advance [of after_AB 0 "''G''" 1 song_A song_B "[]" 0
        "all_well\<lparr>notify_ok := False\<rparr>"]
    by (simp add: after_AB_eval all_well_def song_B_def)
  have a: "fire (Signal all_well 0 Idle) after_AB = Some after_A_idle \<and>
      songs (heap after_AB 0) = song_A # song_B # [] \<and> stream_ok all_well"
    using fire_A_idle by (simp add: after_AB_eval all_well_def)
  from now_playing_reports_connection_channel [OF run_AB, of all_well "''G''" request_B,
      THEN conjunct2, THEN conjunct2, THEN conjunct2]
  have "\<forall>p s' x y ys. fire (Signal all_well p Idle) after_AB = Some s' \<and>
            songs (heap after_AB p) = x # y # ys \<and> stream_ok all_well \<longrightarrow>
            (\<exists>g' n c. queues after_AB g' = Some p \<and> handle g' after_AB = Some c \<and>
               handle g' s' = Some c \<and>
               vc_channel (conns s' c) = vc_channel (conns after_AB c) \<and>
               trace s' =
                 trace after_AB @
                 [Play g' p y, Subscribe c p,
                  EditReply n (NowPlaying (title y) (vc_channel (conns after_AB c)))
                    (notify_ok all_well),
                  Log LInfo ''Playing song''] @
                 (if notify_ok all_well then [] else [Log LError ''Failed to edit reply'']))"
    .
  from this [rule_format, OF a] obtain g' n c where *:
    "queues after_AB g' = Some 0" "handle g' after_AB = Some c" "handle g' after_A_idle = Some c"
    "trace after_A_idle =
                 trace after_AB @
                 [Play g' 0 song_B, Subscribe c 0,
                  EditReply n (NowPlaying (title song_B) (vc_channel (conns after_AB c)))
                    (notify_ok all_well),
                  Log LInfo ''Playing song''] @
                 (if notify_ok all_well then [] else [Log LError ''Failed to edit reply''])"
    by blast
  from reachable_inv [OF run_AB] have "inv after_AB" .
  from inv_inj [OF this after_AB_eval(1) *(1)] have g': "g' = ''G''" .
  from *(2) have c: "c = 0" unfolding g' by (simp add: handle_def after_AB_eval)
  have n: "trace after_A_idle =
     trace after_AB @
     [Play ''G'' 0 song_B, Subscribe 0 0, EditReply 1 (NowPlaying ''B'' ''V1'') True,
      Log LInfo ''Playing song'']"
    by (simp add: after_A_idle_def step_defs after_AB_eval song_B_def all_well_def)
  from * a run_AB n u show ?thesis
    unfolding g' c by (simp add: request_B_def studio_def)
qed

lemma after_A_idle_eval:
  "queues after_A_idle ''G'' = Some 0"
  "heap after_A_idle 0 = \<lparr>songs = [song_B], player = 0, connection = Some 0\<rparr>"
  "next_conn after_A_idle = 1" "next_queue after_A_idle = 1" "next_player after_A_idle = 1"
  "conns after_A_idle 0 =
     \<lparr>vc_guild = ''G'', vc_channel = ''V1'', destroyed = False, subscription = Some 0\<rparr>"
  "players after_A_idle 0 =
     \<lparr>on_error = [\<lparr>h_guild = ''G'', h_iid = 1, h_queue = 0\<rparr>],
      on_idle = [\<lparr>h_guild = ''G'', h_iid = 1, h_queue = 0\<rparr>], playing = Some song_B\<rparr>"
  by (simp_all add: after_A_idle_def step_defs after_AB_eval all_well_def)

lemma next_queue_execute: "next_queue s \<le> next_queue (snd (execute w i s))"
proof (cases "resolved w i")
  case None
  from store_eqD(3) [OF execute_unresolved [OF None, of s]] show ?thesis by simp
next
  case (Some sg)
  let ?s0 = "emit [Log LInfo ''Executing command'', Log LInfo ''Voice channel selected'',
                DeferReply (iid i) True, Log LInfo ''Fetched song info''] s"
  from execute_resolved [OF Some, of s] obtain g vc where
    e: "execute w i s = enqueue w i g vc sg ?s0" by blast
  have "next_queue ?s0 \<le> next_queue (snd (enqueue w i g vc sg ?s0))"
    by (simp add: enqueue_def initialize_queue_def push_def join_def register_handlers_def
        play_or_added_def playSong_def playSong_catch_def editReply_caught_def
        followUp_caught_def rejected_later_def editReply_returned_def emit_def Let_def
        split: option.split list.split)
  then show ?thesis unfolding e by (simp add: emit_def)
qed

lemma next_queue_emit_signal:
  assumes "player (heap s r) = r" "on_idle (players s r) = [\<lparr>h_guild = g, h_iid = n, h_queue = r\<rparr>]"
    "on_error (players s r) = [\<lparr>h_guild = g, h_iid = n, h_queue = r\<rparr>]"
  shows "next_queue (emit_signal w r k s) = next_queue s"
  using assms
  by (cases k; cases "songs (heap s r)"; cases "tl (songs (heap s r))";
      cases "connection (heap s r)")
    (simp_all add: emit_signal_def on_player_idle_def on_player_error_def playSong_def
      playSong_catch_def Let_def destroy_def followUp_caught_def rejected_later_def editReply_caught_def emit_def)

lemma next_queue_fire:
  assumes "inv s" "fire e s = Some s'"
  shows "next_queue s \<le> next_queue s'"
proof (cases e)
  case (Execute w i)
  with assms(2) next_queue_execute [of s w i] show ?thesis by auto
next
  case (Signal w p k)
  with assms(2) obtain sg where p: "p < next_player s" "playing (players s p) = Some sg"
    and s': "s' = emit_signal w p k s" by (auto split: if_splits)
  from p have pq: "p < next_queue s" by (simp add: inv_players [OF assms(1)])
  from inv_playing(1) [OF assms(1) pq p(2)] obtain g where g: "queues s g = Some p" by blast
  from inv_entry [OF assms(1) g] obtain n where h:
    "on_error (players s p) = [\<lparr>h_guild = g, h_iid = n, h_queue = p\<rparr>]"
    "on_idle (players s p) = [\<lparr>h_guild = g, h_iid = n, h_queue = p\<rparr>]" by blast
  from next_queue_emit_signal [OF inv_player [OF assms(1) pq] h(2,1), of w k]
  show ?thesis unfolding s' by simp
qed

lemma plays_playSong:
  "\<exists>es. trace (playSong w g n r s) = trace s @ es \<and>
        (\<forall>g' p sg. Play g' p sg \<in> set es \<longrightarrow> p = player (heap s r))"
  by (cases "songs (heap s r)"; cases "connection (heap s r)")
    (simp_all add: playSong_def playSong_catch_def Let_def followUp_caught_def rejected_later_def
      editReply_caught_def emit_def)

subsection \<open>C6: the queue of a guild and its player\<close>

text \<open>
  C6, as stated, fails: the queue that the command creates for a guild without one already
  holds a player. On the initial state the step ``initialize queue'' calls
  \<open>createAudioPlayer\<close> once, while the new queue has no connection and no connection exists;
  and a call whose join fails has created a player although no connection was ever made.
\<close>

theorem new_queue_has_player_counterexample:
  "queues init ''G'' = None \<and>
   next_player init = 0 \<and>
   next_player (snd (initialize_queue ''G'' init)) = 1 \<and>
   trace (snd (initialize_queue ''G'' init)) = [CreateAudioPlayer 0] \<and>
   heap (snd (initialize_queue ''G'' init)) 0 = \<lparr>songs = [], player = 0, connection = None\<rparr> \<and>
   next_conn (snd (initialize_queue ''G'' init)) = 0 \<and>
   next_player (snd (execute (all_well\<lparr>join_ok := False\<rparr>) request_A init)) = 1 \<and>
   next_conn (snd (execute (all_well\<lparr>join_ok := False\<rparr>) request_A init)) = 0"
  by (simp add: scenario_defs step_defs)

text \<open>
  C6, amended. The step ``initialize queue'' returns the guild's queue when there is one and
  changes nothing; otherwise it creates a player and registers a new queue object with no
  songs, no connection and that player. In every reachable state there are as many players
  as queue objects and each queue object holds its own player; no event changes the player
  of an existing queue object, and every \<open>playSong\<close> for a queue hands its song to the
  player of that queue.
\<close>

theorem queue_creation_and_player:
  assumes "run evs init = Some s"
  shows "(\<forall>r. queues s g = Some r \<longrightarrow> initialize_queue g s = (r, s)) \<and>
         (queues s g = None \<longrightarrow>
            fst (initialize_queue g s) = next_queue s \<and>
            queues (snd (initialize_queue g s)) = (queues s)(g \<mapsto> next_queue s) \<and>
            heap (snd (initialize_queue g s)) (next_queue s) =
              \<lparr>songs = [], player = next_player s, connection = None\<rparr> \<and>
            players (snd (initialize_queue g s)) (next_player s) =
              \<lparr>on_error = [], on_idle = [], playing = None\<rparr> \<and>
            next_player (snd (initialize_queue g s)) = Suc (next_player s) \<and>
            next_queue (snd (initialize_queue g s)) = Suc (next_queue s) \<and>
            conns (snd (initialize_queue g s)) = conns s \<and>
            next_conn (snd (initialize_queue g s)) = next_conn s \<and>
            trace (snd (initialize_queue g s)) = trace s @ [CreateAudioPlayer (next_player s)]) \<and>
         next_player s = next_queue s \<and>
         (\<forall>r < next_queue s. player (heap s r) = r) \<and>
         (\<forall>e s'. fire e s = Some s' \<longrightarrow>
            next_player s' = next_queue s' \<and>
            (\<forall>r < next_queue s. player (heap s' r) = player (heap s r))) \<and>
         (\<forall>w g' n r. \<exists>es. trace (playSong w g' n r s) = trace s @ es \<and>
            (\<forall>g'' p sg. Play g'' p sg \<in> set es \<longrightarrow> p = player (heap s r)))"
proof -
  note inv = reachable_inv [OF assms]
  have 1: "\<forall>r. queues s g = Some r \<longrightarrow> initialize_queue g s = (r, s)"
    by (simp add: initialize_queue_def)
  have 2: "queues s g = None \<longrightarrow>
            fst (initialize_queue g s) = next_queue s \<and>
            queues (snd (initialize_queue g s)) = (queues s)(g \<mapsto> next_queue s) \<and>
            heap (snd (initialize_queue g s)) (next_queue s) =
              \<lparr>songs = [], player = next_player s, connection = None\<rparr> \<and>
            players (snd (initialize_queue g s)) (next_player s) =
              \<lparr>on_error = [], on_idle = [], playing = None\<rparr> \<and>
            next_player (snd (initialize_queue g s)) = Suc (next_player s) \<and>
            next_queue (snd (initialize_queue g s)) = Suc (next_queue s) \<and>
            conns (snd (initialize_queue g s)) = conns s \<and>
            next_conn (snd (initialize_queue g s)) = next_conn s \<and>
            trace (snd (initialize_queue g s)) = trace s @ [CreateAudioPlayer (next_player s)]"
    by (simp add: initialize_queue_def emit_def)
  have 3: "next_player s' = next_queue s' \<and>
            (\<forall>r < next_queue s. player (heap s' r) = player (heap s r))"
    if f: "fire e s = Some s'" for e s'
  proof -
    from inv_fire [OF inv f] have inv': "inv s'" .
    have "player (heap s' r) = player (heap s r)" if "r < next_queue s" for r
      using that next_queue_fire [OF inv f] inv_player [OF inv, of r] inv_player [OF inv', of r]
      by simp
    with inv_players [OF inv'] show ?thesis by simp
  qed
  from 1 2 3 inv_players [OF inv] inv_player [OF inv] plays_playSong [of _ _ _ _ s]
  show ?thesis by blast
qed

theorem queue_creation_and_player_witness:
  "run [Execute all_well request_A] init = Some after_A \<and>
   queues after_A ''G'' = Some 0 \<and>
   initialize_queue ''G'' after_A = (0, after_A) \<and>
   fire (Signal all_well 0 Idle) after_AB = Some after_A_idle \<and>
   player (heap after_A 0) = 0 \<and>
   player (heap after_AB 0) = 0 \<and>
   player (heap after_A_idle 0) = player (heap after_AB 0)"
proof -
  from queue_creation_and_player [OF run_A, of "''G''"] after_A_eval(1)
  have 1: "initialize_queue ''G'' after_A = (0, after_A)" by blast
  from queue_creation_and_player [OF run_AB, of "''G''"] fire_A_idle
  have "\<forall>r < next_queue after_AB. player (heap after_A_idle r) = player (heap after_AB r)"
    by blast
  then have 2: "player (heap after_A_idle 0) = player (heap after_AB 0)"
    by (simp add: after_AB_eval)
  from 1 2 run_A fire_A_idle show ?thesis
    by (simp add: after_A_eval after_AB_eval)
qed

lemma store_returned [simp]:
  "store (snd (reply_returned w n m s)) = store s"
  "store (snd (editReply_returned w n m s)) = store s"
  by (simp_all add: reply_returned_def editReply_returned_def)

lemma emit_fields [simp]:
  "queues (emit es s) = queues s" "heap (emit es s) = heap s"
  "next_queue (emit es s) = next_queue s" "players (emit es s) = players s"
  "next_player (emit es s) = next_player s" "conns (emit es s) = conns s"
  "next_conn (emit es s) = next_conn s" "trace (emit es s) = trace s @ es"
  by (simp_all add: emit_def)

lemma store_upd:
  "store (s\<lparr>queues := q\<rparr>) = (store s)\<lparr>queues := q\<rparr>"
  "store (s\<lparr>heap := h\<rparr>) = (store s)\<lparr>heap := h\<rparr>"
  "store (s\<lparr>players := p\<rparr>) = (store s)\<lparr>players := p\<rparr>"
  "store (s\<lparr>conns := c\<rparr>) = (store s)\<lparr>conns := c\<rparr>"
  by (simp_all add: store_def)

lemma store_playSong_notify:
  "store (playSong (w\<lparr>notify_ok := b\<rparr>) g n r s) = store (playSong w g n r s)"
  by (cases "songs (heap s r)"; cases "connection (heap s r)")
    (simp_all add: playSong_def Let_def store_upd)

lemma store_enqueue_notify:
  "store (snd (enqueue (w\<lparr>notify_ok := b\<rparr>) i g vc sg s)) = store (snd (enqueue w i g vc sg s))"
  by (simp add: enqueue_def play_or_added_def store_playSong_notify Let_def split: prod.split)

lemma store_execute_notify:
  "store (snd (execute (w\<lparr>notify_ok := b\<rparr>) i s)) = store (snd (execute w i s))"
  by (cases "guild i"; cases "channel_opt i"; cases "getInfo w (query i)")
    (simp_all add: execute_def store_enqueue_notify Let_def)

lemma store_on_player_idle_notify:
  "store (on_player_idle (w\<lparr>notify_ok := b\<rparr>) h s) = store (on_player_idle w h s)"
  by (simp add: on_player_idle_def store_playSong_notify Let_def)

lemma store_on_player_error_notify:
  "store (on_player_error (w\<lparr>notify_ok := b\<rparr>) h s) = store (on_player_error w h s)"
  by (cases "connection (heap s (h_queue h))")
    (simp_all add: on_player_error_def Let_def followUp_caught_def rejected_later_def destroy_def emit_def store_def)

lemma store_eq_trace: "store t = store u \<Longrightarrow> t = u\<lparr>trace := trace t\<rparr>"
  by (cases t, cases u) (simp add: store_def)

lemma store_playSong_trace:
  "store (playSong w g n r (s\<lparr>trace := tr\<rparr>)) = store (playSong w g n r s)"
  by (cases "songs (heap s r)"; cases "connection (heap s r)")
    (simp_all add: playSong_def playSong_catch_def followUp_caught_def rejected_later_def editReply_caught_def
      emit_def Let_def store_def)

lemma store_on_player_idle_trace:
  "store (on_player_idle w h (s\<lparr>trace := tr\<rparr>)) = store (on_player_idle w h s)"
proof -
  have *: "s\<lparr>trace := tr, heap := hp\<rparr> = s\<lparr>heap := hp\<rparr>\<lparr>trace := tr\<rparr>" for hp
    by simp
  show ?thesis
    by (cases "connection (heap s (h_queue h))")
      (simp_all add: on_player_idle_def Let_def * store_playSong_trace del: state.update_convs,
        simp_all add: destroy_def emit_def store_def)
qed

lemma store_on_player_error_trace:
  "store (on_player_error w h (s\<lparr>trace := tr\<rparr>)) = store (on_player_error w h s)"
  by (cases "connection (heap s (h_queue h))")
    (simp_all add: on_player_error_def Let_def followUp_caught_def rejected_later_def destroy_def emit_def store_def)

lemma store_on_player_idle_cong:
  assumes "store t = store u"
  shows "store (on_player_idle (w\<lparr>notify_ok := b\<rparr>) h t) = store (on_player_idle w h u)"
  using store_on_player_idle_trace [where w = "w\<lparr>notify_ok := b\<rparr>" and h = h and s = u and tr = "trace t"]
    store_eq_trace [OF assms] store_on_player_idle_notify [where w = w and b = b and h = h and s = u]
  by simp

lemma store_on_player_error_cong:
  assumes "store t = store u"
  shows "store (on_player_error (w\<lparr>notify_ok := b\<rparr>) h t) = store (on_player_error w h u)"
  using store_on_player_error_trace [where w = "w\<lparr>notify_ok := b\<rparr>" and h = h and s = u and tr = "trace t"]
    store_eq_trace [OF assms] store_on_player_error_notify [where w = w and b = b and h = h and s = u]
  by simp

lemma store_foldl_idle:
  "store t = store u \<Longrightarrow>
   store (foldl (\<lambda>t h. on_player_idle (w\<lparr>notify_ok := b\<rparr>) h t) t hs) =
   store (foldl (\<lambda>t h. on_player_idle w h t) u hs)"
  by (induction hs arbitrary: t u) (simp_all add: store_on_player_idle_cong)

lemma store_foldl_error:
  "store t = store u \<Longrightarrow>
   store (foldl (\<lambda>t h. on_player_error (w\<lparr>notify_ok := b\<rparr>) h t) t hs) =
   store (foldl (\<lambda>t h. on_player_error w h t) u hs)"
  by (induction hs arbitrary: t u) (simp_all add: store_on_player_error_cong)

lemma store_emit_signal_notify:
  "store (emit_signal (w\<lparr>notify_ok := b\<rparr>) p k s) = store (emit_signal w p k s)"
  by (cases k) (simp_all add: emit_signal_def Let_def store_foldl_idle store_foldl_error)

lemma logged_playSong:
  assumes "\<not> notify_ok w"
  shows "\<exists>es. trace (playSong w g n r s) = trace s @ es \<and>
           (Log LError ''Failed to edit reply'' \<in> set es \<or>
            Log LError ''Failed to send follow-up'' \<in> set es)"
  using assms
  by (cases "songs (heap s r)"; cases "connection (heap s r)")
    (simp_all add: playSong_def playSong_catch_def followUp_caught_def rejected_later_def editReply_caught_def
      Let_def)

lemma logged_play_or_added:
  assumes "\<not> notify_ok w"
  shows "\<exists>es. trace (play_or_added w g n sg r s) = trace s @ es \<and>
           (Log LError ''Failed to edit reply'' \<in> set es \<or>
            Log LError ''Failed to send follow-up'' \<in> set es)"
  using assms logged_playSong [OF assms, of g n r s]
  by (simp add: play_or_added_def editReply_caught_def rejected_later_def)

lemma logged_enqueue:
  assumes "\<not> notify_ok w" "join_ok w"
  shows "\<exists>es. trace (snd (enqueue w i g vc sg s)) = trace s @ es \<and>
           (Log LError ''Failed to edit reply'' \<in> set es \<or>
            Log LError ''Failed to send follow-up'' \<in> set es)"
proof -
  obtain r s1 where i: "initialize_queue g s = (r, s1)" by (cases "initialize_queue g s")
  then obtain pre where pre: "trace s1 = trace s @ pre"
    by (cases "queues s g") (auto simp: initialize_queue_def)
  let ?s2 = "push r sg s1"
  let ?s3 = "register_handlers g (iid i) r (join g vc r ?s2)"
  have t2: "trace ?s2 = trace s @ pre" by (simp add: push_def pre)
  have t3: "trace ?s3 = trace s @ pre @ [JoinVoiceChannel g (ch_id vc) True,
      Log LInfo ''Bot joined voice channel'']"
    by (simp add: register_handlers_def join_def Let_def t2)
  from logged_play_or_added [OF assms(1), of g "iid i" sg r ?s2]
    logged_play_or_added [OF assms(1), of g "iid i" sg r ?s3]
  show ?thesis
    using i assms(2) unfolding t2 t3 by (auto simp: enqueue_def Let_def)
qed

lemma resolved_enqueue:
  assumes "join_ok w"
  shows "fst (enqueue w i g vc sg s) = Resolved"
  using assms by (simp add: enqueue_def Let_def split: prod.split)

subsection \<open>C8: failures to deliver a status message\<close>

text \<open>
  C8, as stated, fails: a failure of \<open>deferReply\<close> makes the command return at once. The
  request for track \<open>A\<close> on the initial state enqueues the song and starts a queue when
  \<open>deferReply\<close> succeeds; when it fails, the same request leaves the guild without a queue
  and only logs the failure.
\<close>

theorem defer_failure_counterexample:
  "accepted request_A \<and>
   queues (snd (execute all_well request_A init)) ''G'' = Some 0 \<and>
   pending ''G'' (snd (execute all_well request_A init)) = [song_A] \<and>
   queues (snd (execute (all_well\<lparr>defer_ok := False\<rparr>) request_A init)) ''G'' = None \<and>
   pending ''G'' (snd (execute (all_well\<lparr>defer_ok := False\<rparr>) request_A init)) = [] \<and>
   fst (execute (all_well\<lparr>defer_ok := False\<rparr>) request_A init) = Resolved \<and>
   trace (snd (execute (all_well\<lparr>defer_ok := False\<rparr>) request_A init)) =
     [Log LInfo ''Executing command'', Log LInfo ''Voice channel selected'',
      DeferReply 1 False, Log LError ''Failed to defer reply'']"
  by (simp add: accepted_def pending_def scenario_defs step_defs)

text \<open>
  C8, amended. Whether the status message of a step is delivered or not makes no difference
  to the map and to the queue, player and connection objects, for every call of the command
  and every signal. A failed \<open>deferReply\<close> is swallowed and logged, and the command ends
  there with the state untouched. When the track lookup fails, or the song is resolved and
  the join does not fail, the message of the call is sent with a handler for its failure:
  the command resolves, and a failed delivery is logged.
\<close>

theorem notify_failure_contained:
  "store (snd (execute (w\<lparr>notify_ok := b\<rparr>) i s)) = store (snd (execute w i s)) \<and>
   (\<forall>p k. store (emit_signal (w\<lparr>notify_ok := b\<rparr>) p k s) = store (emit_signal w p k s)) \<and>
   (accepted i \<and> \<not> defer_ok w \<longrightarrow>
      execute w i s =
        (Resolved,
         emit [Log LInfo ''Executing command'', Log LInfo ''Voice channel selected'',
               DeferReply (iid i) False, Log LError ''Failed to defer reply''] s)) \<and>
   (accepted i \<and> defer_ok w \<and> validateURL w (query i) \<and>
    (getInfo w (query i) = None \<or> join_ok w) \<longrightarrow>
      fst (execute w i s) = Resolved \<and>
      (\<not> notify_ok w \<longrightarrow>
         (\<exists>es. trace (snd (execute w i s)) = trace s @ es \<and>
            (Log LError ''Failed to edit reply'' \<in> set es \<or>
             Log LError ''Failed to send follow-up'' \<in> set es))))"
proof -
  have 3: "execute w i s =
        (Resolved,
         emit [Log LInfo ''Executing command'', Log LInfo ''Voice channel selected'',
               DeferReply (iid i) False, Log LError ''Failed to defer reply''] s)"
    if "accepted i" "\<not> defer_ok w"
    using that
    by (auto simp: accepted_def execute_def emit_def Let_def split: option.splits)
  have 4: "fst (execute w i s) = Resolved \<and>
      (\<not> notify_ok w \<longrightarrow>
         (\<exists>es. trace (snd (execute w i s)) = trace s @ es \<and>
            (Log LError ''Failed to edit reply'' \<in> set es \<or>
             Log LError ''Failed to send follow-up'' \<in> set es)))"
    if a: "accepted i" "defer_ok w" "validateURL w (query i)"
      "getInfo w (query i) = None \<or> join_ok w"
  proof (cases "getInfo w (query i)")
    case None
    with a(1-3) show ?thesis
      by (auto simp: accepted_def execute_def editReply_caught_def rejected_later_def Let_def
          split: option.splits)
  next
    case (Some sg)
    with a have j: "join_ok w" and r: "resolved w i = Some sg"
      by (simp_all add: resolved_def)
    let ?s0 = "emit [Log LInfo ''Executing command'', Log LInfo ''Voice channel selected'',
                DeferReply (iid i) True, Log LInfo ''Fetched song info''] s"
    from execute_resolved [OF r, of s] obtain g vc where
      e: "execute w i s = enqueue w i g vc sg ?s0" by blast
    have "\<exists>es. trace (snd (execute w i s)) = trace s @ es \<and>
            (Log LError ''Failed to edit reply'' \<in> set es \<or>
             Log LError ''Failed to send follow-up'' \<in> set es)" if n: "\<not> notify_ok w"
    proof -
      from logged_enqueue [OF n j, of i g vc sg ?s0] obtain es where
        "trace (snd (enqueue w i g vc sg ?s0)) = trace ?s0 @ es"
        "Log LError ''Failed to edit reply'' \<in> set es \<or>
         Log LError ''Failed to send follow-up'' \<in> set es" by blast
      then have "trace (snd (execute w i s)) =
          trace s @ ([Log LInfo ''Executing command'', Log LInfo ''Voice channel selected'',
                DeferReply (iid i) True, Log LInfo ''Fetched song info''] @ es) \<and>
          (Log LError ''Failed to edit reply'' \<in> set ([Log LInfo ''Executing command'',
             Log LInfo ''Voice channel selected'', DeferReply (iid i) True,
             Log LInfo ''Fetched song info''] @ es) \<or>
           Log LError ''Failed to send follow-up'' \<in> set ([Log LInfo ''Executing command'',
             Log LInfo ''Voice channel selected'', DeferReply (iid i) True,
             Log LInfo ''Fetched song info''] @ es))"
        unfolding e by simp
      then show ?thesis by blast
    qed
    with resolved_enqueue [OF j, of i g vc sg ?s0] show ?thesis
      unfolding e by simp
  qed
  from store_execute_notify [where w = w and b = b and i = i and s = s]
    store_emit_signal_notify [where w = w and b = b and s = s] 3 4
  show ?thesis by blast
qed

theorem notify_failure_contained_witness:
  "accepted request_B \<and> defer_ok all_well \<and> validateURL all_well (query request_B) \<and>
   join_ok all_well \<and>
   store (snd (execute (all_well\<lparr>notify_ok := False\<rparr>) request_B after_A)) = store after_AB \<and>
   fst (execute (all_well\<lparr>notify_ok := False\<rparr>) request_B after_A) = Resolved \<and>
   trace (snd (execute (all_well\<lparr>notify_ok := False\<rparr>) request_B after_A)) =
     trace after_A @
     [Log LInfo ''Executing command'', Log LInfo ''Voice channel selected'',
      DeferReply 2 True, Log LInfo ''Fetched song info'',
      EditReply 2 (AddedToQueue ''B'') False, Log LError ''Failed to edit reply'']"
proof -
  let ?w = "all_well\<lparr>notify_ok := False\<rparr>"
  have a: "accepted request_B \<and> defer_ok ?w \<and> validateURL ?w (query request_B) \<and>
    (getInfo ?w (query request_B) = None \<or> join_ok ?w)"
    by (simp add: accepted_def scenario_defs)
  from notify_failure_contained
    [where w = all_well and b = False and i = request_B and s = after_A]
  have 1: "store (snd (execute ?w request_B after_A)) = store after_AB"
    unfolding after_AB_def by blast
  from notify_failure_contained
    [where w = ?w and b = False and i = request_B and s = after_A] a
  have 2: "fst (execute ?w request_B after_A) = Resolved" by blast
  have 3: "trace (snd (execute ?w request_B after_A)) =
     trace after_A @
     [Log LInfo ''Executing command'', Log LInfo ''Voice channel selected'',
      DeferReply 2 True, Log LInfo ''Fetched song info'',
      EditReply 2 (AddedToQueue ''B'') False, Log LError ''Failed to edit reply'']"
    by (simp add: step_defs after_A_eval request_B_def studio_def all_well_def)
  from a 1 2 3 show ?thesis by (simp add: all_well_def)
qed


subsection \<open>C1: first in, first out\<close>














end
